theory Spec2Isabelle
  imports Main "HOL-Library.Word"
begin

section \<open>The connection reactor of puka (src/puka/connection.py)\<close>

text \<open>
  A shallow embedding of \<^verbatim>\<open>Connection\<close> and \<^verbatim>\<open>parse_amqp_url\<close>.
  Python's byte strings are lists of 8-bit words, Python's unbounded integers are
  \<open>int\<close>, lengths and buffer offsets are \<open>nat\<close>. Every exception of the source is a
  value of \<open>error\<close>; a method that mutates \<^verbatim>\<open>self\<close> returns the state it leaves behind,
  also when it raises (the mutation done before the raise stays visible in Python).
\<close>

type_synonym byte = "8 word"
type_synonym bytes = "byte list"

text \<open>
  The error numbers that the source names, and \<open>Errno n\<close> for any other one.
\<close>

datatype errno = EAGAIN | EINPROGRESS | Errno int

datatype error =
    AssertionError
  | StructError
  | KeyError
  | AttributeError
  | ValueError
  | SocketError errno

subsection \<open>Negotiated frame size\<close>

text \<open>
  \<^verbatim>\<open>
  frame_max = 131072
  def _tune_frame_max(self, new_frame_max):
      new_frame_max = new_frame_max if new_frame_max != 0 else 2**19
      self.frame_max = min(self.frame_max, new_frame_max)
      return self.frame_max
  \<close>
  The method reads and writes \<^verbatim>\<open>self.frame_max\<close> only, so the model passes that
  field: it takes the current ceiling and returns the new one, which is both the value
  stored and the value returned.
\<close>

definition default_frame_max :: int where
  "default_frame_max = 131072"

definition tune_frame_max :: "int \<Rightarrow> int \<Rightarrow> int" where
  "tune_frame_max frame_max new_frame_max =
     (let new_frame_max = (if new_frame_max \<noteq> 0 then new_frame_max else 2 ^ 19)
      in min frame_max new_frame_max)"

subsection \<open>Fixed-width big-endian fields (\<^verbatim>\<open>struct\<close> with the \<^verbatim>\<open>!\<close> prefix)\<close>

text \<open>
  \<^verbatim>\<open>struct.pack('!BHI', a, b, c)\<close> writes \<open>a\<close> on 1 byte, \<open>b\<close> on 2 and \<open>c\<close> on 4, most
  significant byte first and without padding: 7 bytes. It raises \<^verbatim>\<open>struct.error\<close> when a
  value is outside the range of its field. \<^verbatim>\<open>struct.unpack_from(fmt, data, offset)\<close>
  raises \<^verbatim>\<open>struct.error\<close> when fewer bytes than the format's size are left at \<open>offset\<close>.
\<close>

fun be_nat :: "bytes \<Rightarrow> nat" where
  "be_nat [] = 0"
| "be_nat (b # bs) = unat b * 256 ^ length bs + be_nat bs"

fun be_bytes :: "nat \<Rightarrow> nat \<Rightarrow> bytes" where
  "be_bytes 0 n = []"
| "be_bytes (Suc k) n = word_of_nat (n div 256 ^ k) # be_bytes k n"

definition pack_BHI :: "int \<Rightarrow> int \<Rightarrow> int \<Rightarrow> error + bytes" where
  "pack_BHI b h i =
     (if 0 \<le> b \<and> b < 2 ^ 8 \<and> 0 \<le> h \<and> h < 2 ^ 16 \<and> 0 \<le> i \<and> i < 2 ^ 32
      then Inr (be_bytes 1 (nat b) @ be_bytes 2 (nat h) @ be_bytes 4 (nat i))
      else Inl StructError)"

definition unpack_from_BHI :: "bytes \<Rightarrow> nat \<Rightarrow> error + (nat \<times> nat \<times> nat)" where
  "unpack_from_BHI data offset =
     (if length data < offset + 7 then Inl StructError
      else Inr (be_nat (take 1 (drop offset data)),
                be_nat (take 2 (drop (offset + 1) data)),
                be_nat (take 4 (drop (offset + 3) data))))"

definition unpack_from_I :: "bytes \<Rightarrow> nat \<Rightarrow> error + nat" where
  "unpack_from_I data offset =
     (if length data < offset + 4 then Inl StructError
      else Inr (be_nat (take 4 (drop offset data))))"

text \<open>\<^verbatim>\<open>'!HxxQ'\<close>: a 2-byte field, 2 pad bytes, an 8-byte field: 12 bytes.\<close>

definition unpack_from_HxxQ :: "bytes \<Rightarrow> nat \<Rightarrow> error + (nat \<times> nat)" where
  "unpack_from_HxxQ data offset =
     (if length data < offset + 12 then Inl StructError
      else Inr (be_nat (take 2 (drop offset data)),
                be_nat (take 8 (drop (offset + 4) data))))"

subsection \<open>The frame encoder\<close>

text \<open>
  \<^verbatim>\<open>
  def _send_frames(self, channel_number, frames):
      self._send( ''.join([''.join((struct.pack('!BHI', frame_type, channel_number,
                                                len(payload)),
                                    payload, '\xCE'))
                           for frame_type, payload in frames]) )
  \<close>
  \<open>frame_bytes\<close> is the inner join (one frame), \<open>encode_frames\<close> the outer one (the
  argument of \<^verbatim>\<open>_send\<close>).
\<close>

definition frame_bytes :: "int \<Rightarrow> int \<Rightarrow> bytes \<Rightarrow> error + bytes" where
  "frame_bytes frame_type channel_number payload =
     (case pack_BHI frame_type channel_number (int (length payload)) of
        Inl e \<Rightarrow> Inl e
      | Inr header \<Rightarrow> Inr (header @ payload @ [0xCE]))"

fun encode_frames :: "int \<Rightarrow> (int \<times> bytes) list \<Rightarrow> error + bytes" where
  "encode_frames channel_number [] = Inr []"
| "encode_frames channel_number ((frame_type, payload) # frames) =
     (case frame_bytes frame_type channel_number payload of
        Inl e \<Rightarrow> Inl e
      | Inr b \<Rightarrow>
          (case encode_frames channel_number frames of
             Inl e \<Rightarrow> Inl e
           | Inr bs \<Rightarrow> Inr (b @ bs)))"

subsection \<open>Collaborators that are not part of connection.py\<close>

text \<open>
  Modelled from the spec: the method and property catalogue (\<^verbatim>\<open>spec.METHODS\<close>,
  \<^verbatim>\<open>spec.PROPS\<close>) is "a lookup from method id to a decoder producing a typed frame, and
  from class id to a property-block decoder; purely data-driven". The source calls an
  entry as \<^verbatim>\<open>spec.METHODS[method_id](data, offset)\<close> and gets \<^verbatim>\<open>(frame, offset)\<close> back, so a
  decoder takes the whole buffer and an offset and returns the decoded value with the
  offset behind it, or raises. Both tables are parameters of the model.
\<close>

type_synonym 'a decoder = "bytes \<Rightarrow> nat \<Rightarrow> error + ('a \<times> nat)"

record ('m, 'p) catalogue =
  METHODS :: "nat \<rightharpoonup> 'm decoder"
  PROPS :: "nat \<rightharpoonup> 'p decoder"

text \<open>
  Modelled from the spec: the channel table (\<^verbatim>\<open>channel.ChannelCollection\<close>) "maps a small
  integer channel id to per-channel protocol state that knows how to consume a decoded
  method frame, a header frame, or a body chunk". The source reaches a channel as
  \<^verbatim>\<open>self.channels.channels[channel]\<close>, a dictionary lookup that raises \<^verbatim>\<open>KeyError\<close> for an
  id that is not allocated. What a channel does with a frame is outside connection.py: the
  model records each call of \<^verbatim>\<open>inbound_method\<close>, \<^verbatim>\<open>inbound_props\<close> and \<^verbatim>\<open>inbound_body\<close>,
  with its channel id and arguments, in the order the calls are made.
\<close>

datatype ('m, 'p) inbound =
    Inbound_method nat 'm
  | Inbound_props nat nat 'p
  | Inbound_body nat bytes

record ('m, 'p) channel_collection =
  allocated :: "nat set"
  inbound :: "('m, 'p) inbound list"

definition deliver ::
  "('m, 'p) channel_collection \<Rightarrow> nat \<Rightarrow> ('m, 'p) inbound \<Rightarrow>
   error + ('m, 'p) channel_collection" where
  "deliver chs channel ev =
     (if channel \<in> allocated chs then Inr (chs\<lparr>inbound := inbound chs @ [ev]\<rparr>)
      else Inl KeyError)"

subsection \<open>The frame decoder\<close>

text \<open>
  \<^verbatim>\<open>_handle_read(self, data, start_offset)\<close> touches \<^verbatim>\<open>self.channels\<close> only: the model
  passes the channel table and returns it with the new offset and the new bytes-needed
  value. \<open>dispatch_frame\<close> is the \<^verbatim>\<open>if frame_type == ...\<close> chain (lines 99 to 114), which
  yields the offset behind the payload. The two lengths compared with \<^verbatim>\<open>len(data) -
  start_offset\<close> are written here with the offset added on the other side, which is the
  same comparison on Python's integers and does not truncate on \<open>nat\<close>. An
  \<^verbatim>\<open>assert\<close> is executed (the interpreter does not run with \<^verbatim>\<open>-O\<close>): a false one
  raises \<^verbatim>\<open>AssertionError\<close>.
\<close>

definition dispatch_frame ::
  "('m, 'p) catalogue \<Rightarrow> ('m, 'p) channel_collection \<Rightarrow> bytes \<Rightarrow> nat \<Rightarrow> nat \<Rightarrow> nat \<Rightarrow> nat \<Rightarrow>
   (error \<times> ('m, 'p) channel_collection) + (nat \<times> ('m, 'p) channel_collection)" where
  "dispatch_frame cat chs data offset frame_type channel payload_size =
     (if frame_type = 1 then
        (case unpack_from_I data offset of
           Inl e \<Rightarrow> Inl (e, chs)
         | Inr method_id \<Rightarrow>
             (case METHODS cat method_id of
                None \<Rightarrow> Inl (KeyError, chs)
              | Some decode \<Rightarrow>
                  (case decode data (offset + 4) of
                     Inl e \<Rightarrow> Inl (e, chs)
                   | Inr (frame, offset') \<Rightarrow>
                       (case deliver chs channel (Inbound_method channel frame) of
                          Inl e \<Rightarrow> Inl (e, chs)
                        | Inr chs' \<Rightarrow> Inr (offset', chs')))))
      else if frame_type = 2 then
        (case unpack_from_HxxQ data offset of
           Inl e \<Rightarrow> Inl (e, chs)
         | Inr (class_id, body_size) \<Rightarrow>
             (case PROPS cat class_id of
                None \<Rightarrow> Inl (KeyError, chs)
              | Some decode \<Rightarrow>
                  (case decode data (offset + 12) of
                     Inl e \<Rightarrow> Inl (e, chs)
                   | Inr (props, offset') \<Rightarrow>
                       (case deliver chs channel (Inbound_props channel body_size props) of
                          Inl e \<Rightarrow> Inl (e, chs)
                        | Inr chs' \<Rightarrow> Inr (offset', chs')))))
      else if frame_type = 3 then
        (let body_chunk = take payload_size (drop offset data) in
         case deliver chs channel (Inbound_body channel body_chunk) of
           Inl e \<Rightarrow> Inl (e, chs)
         | Inr chs' \<Rightarrow> Inr (offset + length body_chunk, chs'))
      else Inl (AssertionError, chs))"

definition handle_read ::
  "('m, 'p) catalogue \<Rightarrow> ('m, 'p) channel_collection \<Rightarrow> bytes \<Rightarrow> nat \<Rightarrow>
   (error \<times> ('m, 'p) channel_collection) + (nat \<times> nat \<times> ('m, 'p) channel_collection)" where
  "handle_read cat chs data start_offset =
     (if length data < start_offset + 8 then Inr (start_offset, 8, chs)
      else
        (case unpack_from_BHI data start_offset of
           Inl e \<Rightarrow> Inl (e, chs)
         | Inr (frame_type, channel, payload_size) \<Rightarrow>
             (let offset = start_offset + 7 in
              if length data < start_offset + (8 + payload_size)
              then Inr (start_offset, 8 + payload_size, chs)
              else if data ! (offset + payload_size) \<noteq> 0xCE then Inl (AssertionError, chs)
              else
                (case dispatch_frame cat chs data offset frame_type channel payload_size of
                   Inl e \<Rightarrow> Inl e
                 | Inr (offset, chs') \<Rightarrow>
                     (let offset = offset + 1 in
                      if offset \<noteq> start_offset + 8 + payload_size
                      then Inl (AssertionError, chs')
                      else Inr (offset, 8, chs'))))))"

subsection \<open>The decode loop of \<^verbatim>\<open>on_read\<close>\<close>

text \<open>
  \<^verbatim>\<open>
  while len(data) - offset >= self.recv_need:
      offset, self.recv_need = self._handle_read(data, offset)
  \<close>
  The loop state is the offset, \<^verbatim>\<open>self.recv_need\<close> and the channel table. When
  \<^verbatim>\<open>_handle_read\<close> raises, the assignment does not happen: the error carries the
  bytes-needed value of the previous iteration and the channel table as the raise left it.
\<close>

function read_loop ::
  "('m, 'p) catalogue \<Rightarrow> bytes \<Rightarrow> nat \<Rightarrow> nat \<Rightarrow> ('m, 'p) channel_collection \<Rightarrow>
   (error \<times> nat \<times> ('m, 'p) channel_collection) + (nat \<times> nat \<times> ('m, 'p) channel_collection)" where
  "read_loop cat data offset recv_need chs =
     (if offset + recv_need \<le> length data then
        (case handle_read cat chs data offset of
           Inl (e, chs') \<Rightarrow> Inl (e, recv_need, chs')
         | Inr (offset', recv_need', chs') \<Rightarrow> read_loop cat data offset' recv_need' chs')
      else Inr (offset, recv_need, chs))"
  by pat_completeness auto
termination
  apply (relation "measure (\<lambda>(cat, data, offset, recv_need, chs).
          2 * (length data - offset) + (if offset + recv_need \<le> length data then 1 else 0))")
   apply simp
  apply (auto simp: handle_read_def Let_def split: if_splits sum.splits prod.splits)
  done

declare read_loop.simps [simp del]

text \<open>
  The calls of \<^verbatim>\<open>_handle_read\<close> that the loop makes, as (offset, bytes-needed at the call,
  offset returned, bytes-needed returned), in order: the same recursion as \<open>read_loop\<close>,
  returning the calls instead of the final state. A call that raises ends the list.
\<close>

function read_loop_calls ::
  "('m, 'p) catalogue \<Rightarrow> bytes \<Rightarrow> nat \<Rightarrow> nat \<Rightarrow> ('m, 'p) channel_collection \<Rightarrow>
   (nat \<times> nat \<times> nat \<times> nat) list" where
  "read_loop_calls cat data offset recv_need chs =
     (if offset + recv_need \<le> length data then
        (case handle_read cat chs data offset of
           Inl (e, chs') \<Rightarrow> []
         | Inr (offset', recv_need', chs') \<Rightarrow>
             (offset, recv_need, offset', recv_need') #
             read_loop_calls cat data offset' recv_need' chs')
      else [])"
  by pat_completeness auto
termination
  apply (relation "measure (\<lambda>(cat, data, offset, recv_need, chs).
          2 * (length data - offset) + (if offset + recv_need \<le> length data then 1 else 0))")
   apply simp
  apply (auto simp: handle_read_def Let_def split: if_splits sum.splits prod.splits)
  done

declare read_loop_calls.simps [simp del]

subsection \<open>Promises, the socket and the connection\<close>

text \<open>
  Modelled from the spec: a promise (\<^verbatim>\<open>promise.Promise\<close>) is "an identifier plus state, an
  optional reference count, an optional user callback, and a result slot". The source
  reads the attribute \<^verbatim>\<open>to_be_released\<close> and calls \<^verbatim>\<open>promise.done(result)\<close>;
  \<^verbatim>\<open>self.promises.all()\<close> is the list of the promises of the connection. \<^verbatim>\<open>done\<close> is a
  parameter of the model, a function from the result and the promise to the promise it
  leaves: nothing is assumed about what it stores or which flags it sets.
\<close>

record 'r promise =
  number :: nat
  to_be_released :: bool
  results :: "'r list"

text \<open>
  The result that \<^verbatim>\<open>on_read\<close> hands to \<^verbatim>\<open>_shutdown\<close> is
  \<^verbatim>\<open>exceptions.mark_frame(spec.Frame(), exceptions.ConnectionBroken())\<close>.
\<close>

datatype 'f result = Frame 'f | ConnectionBroken

text \<open>
  The socket is an external object. \<open>sd\<close> is \<open>None\<close> where the source has assigned
  \<^verbatim>\<open>None\<close> to \<^verbatim>\<open>self.sd\<close>; a method call on it then raises \<^verbatim>\<open>AttributeError\<close>, as a method
  call on \<^verbatim>\<open>self.send_buf\<close> does once that is \<^verbatim>\<open>None\<close>. What \<^verbatim>\<open>recv\<close> and \<^verbatim>\<open>send\<close>
  answer is an input of the model: the bytes received (at most 131072 of them, none when
  the peer has closed) or the error number, and the number of bytes that \<^verbatim>\<open>send\<close>
  accepted (at most what it was given, the first 131072 bytes of the send buffer) or the
  error number. \<^verbatim>\<open>shutdown\<close> and \<^verbatim>\<open>close\<close> are taken to succeed on a socket object;
  \<open>sd_calls\<close> records them in call order.
\<close>

datatype socket = Socket int

datatype sock_call = Shutdown_RDWR | Close

datatype recv_result = Recv bytes | Recv_error errno

datatype send_result = Sent nat | Send_error errno

text \<open>
  Modelled from the spec: the byte buffer (\<^verbatim>\<open>simplebuffer.SimpleBuffer\<close>) is "an
  append/consume growable byte store supporting write bytes at the end, read all unread
  bytes without consuming, and consume N bytes from the front": a list of bytes, with
  \<^verbatim>\<open>write\<close> as \<open>@\<close>, \<^verbatim>\<open>read()\<close> as the list, \<^verbatim>\<open>read(n)\<close> as \<open>take n\<close>, \<^verbatim>\<open>consume(n)\<close> as
  \<open>drop n\<close>, \<^verbatim>\<open>len\<close> as \<open>length\<close>, and truth value "not empty".
\<close>

record ('m, 'p, 'r) connection =
  frame_max :: int
  channels :: "('m, 'p) channel_collection"
  promises :: "'r promise list"
  recv_buf :: bytes
  recv_need :: nat
  send_buf :: "bytes option"
  sd :: "socket option"
  sd_calls :: "sock_call list"

definition init_buffers :: "('m, 'p, 'r) connection \<Rightarrow> ('m, 'p, 'r) connection" where
  "init_buffers c = c\<lparr>recv_buf := [], recv_need := 8, send_buf := Some []\<rparr>"

text \<open>
  \<^verbatim>\<open>
  def _shutdown(self, result):
      for promise in self.promises.all():
          if promise.to_be_released is False:
              promise.done(result)
      self.sd.shutdown(socket.SHUT_RDWR)
      self.sd.close()
      self.sd = None
      self.send_buf = None
  \<close>
\<close>

definition shutdown ::
  "('r \<Rightarrow> 'r promise \<Rightarrow> 'r promise) \<Rightarrow> ('m, 'p, 'r) connection \<Rightarrow> 'r \<Rightarrow>
   (error \<times> ('m, 'p, 'r) connection) + ('m, 'p, 'r) connection" where
  "shutdown done c result =
     (let c1 = c\<lparr>promises :=
                  map (\<lambda>promise. if to_be_released promise = False then done result promise
                                  else promise)
                      (promises c)\<rparr>
      in case sd c1 of
           None \<Rightarrow> Inl (AttributeError, c1)
         | Some s \<Rightarrow>
             Inr (c1\<lparr>sd_calls := sd_calls c1 @ [Shutdown_RDWR, Close],
                     sd := None, send_buf := None\<rparr>))"

text \<open>
  \<^verbatim>\<open>
  def on_read(self):
      try:
          r = self.sd.recv(131072)
      except socket.error, e:
          if e.errno == errno.EAGAIN:
              return
          else:
              raise
      if len(r) == 0:
          self._shutdown(exceptions.mark_frame(spec.Frame(),
                                               exceptions.ConnectionBroken()))
      self.recv_buf.write(r)
      if len(self.recv_buf) >= self.recv_need:
          data = self.recv_buf.read()
          offset = 0
          while len(data) - offset >= self.recv_need:
              offset, self.recv_need = \
                  self._handle_read(data, offset)
          self.recv_buf.consume(offset)
  \<close>
\<close>

definition on_read ::
  "('m, 'p) catalogue \<Rightarrow> ('f result \<Rightarrow> 'f result promise \<Rightarrow> 'f result promise) \<Rightarrow>
   ('m, 'p, 'f result) connection \<Rightarrow> recv_result \<Rightarrow>
   (error \<times> ('m, 'p, 'f result) connection) + ('m, 'p, 'f result) connection" where
  "on_read cat done c rr =
     (case sd c of
        None \<Rightarrow> Inl (AttributeError, c)
      | Some s \<Rightarrow>
          (case rr of
             Recv_error e \<Rightarrow> if e = EAGAIN then Inr c else Inl (SocketError e, c)
           | Recv r \<Rightarrow>
               (case (if length r = 0 then shutdown done c ConnectionBroken else Inr c) of
                  Inl e \<Rightarrow> Inl e
                | Inr c1 \<Rightarrow>
                    (let c2 = c1\<lparr>recv_buf := recv_buf c1 @ r\<rparr> in
                     if length (recv_buf c2) \<ge> recv_need c2 then
                       (let data = recv_buf c2 in
                        case read_loop cat data 0 (recv_need c2) (channels c2) of
                          Inl (e, need, chs) \<Rightarrow>
                            Inl (e, c2\<lparr>recv_need := need, channels := chs\<rparr>)
                        | Inr (offset, need, chs) \<Rightarrow>
                            Inr (c2\<lparr>recv_need := need, channels := chs,
                                    recv_buf := drop offset (recv_buf c2)\<rparr>))
                     else Inr c2))))"

text \<open>The event loop calls \<^verbatim>\<open>on_read\<close> once for each readiness event, until one raises.\<close>

fun on_reads ::
  "('m, 'p) catalogue \<Rightarrow> ('f result \<Rightarrow> 'f result promise \<Rightarrow> 'f result promise) \<Rightarrow>
   ('m, 'p, 'f result) connection \<Rightarrow> recv_result list \<Rightarrow>
   (error \<times> ('m, 'p, 'f result) connection) + ('m, 'p, 'f result) connection" where
  "on_reads cat done c [] = Inr c"
| "on_reads cat done c (rr # rrs) =
     (case on_read cat done c rr of
        Inl e \<Rightarrow> Inl e
      | Inr c' \<Rightarrow> on_reads cat done c' rrs)"

text \<open>
  \<^verbatim>\<open>
  def on_write(self):
      try:
          r = self.sd.send(self.send_buf.read(128*1024))
      except socket.error, e:
          if e.errno == errno.EAGAIN:
              return
          else:
              raise
      self.send_buf.consume(r)

  def _send(self, data):
      p = bool(self.send_buf)
      self.send_buf.write(data)
      if not p: # buffer wasn't full before, try to write straightaway.
          self.on_write()
  \<close>
  \<^verbatim>\<open>bool(None)\<close> is false and raises nothing; \<^verbatim>\<open>None.write\<close> raises.
\<close>

definition on_write ::
  "('m, 'p, 'r) connection \<Rightarrow> send_result \<Rightarrow>
   (error \<times> ('m, 'p, 'r) connection) + ('m, 'p, 'r) connection" where
  "on_write c sr =
     (case sd c of
        None \<Rightarrow> Inl (AttributeError, c)
      | Some s \<Rightarrow>
          (case send_buf c of
             None \<Rightarrow> Inl (AttributeError, c)
           | Some buf \<Rightarrow>
               (case sr of
                  Send_error e \<Rightarrow> if e = EAGAIN then Inr c else Inl (SocketError e, c)
                | Sent r \<Rightarrow> Inr (c\<lparr>send_buf := Some (drop r buf)\<rparr>))))"

definition send ::
  "('m, 'p, 'r) connection \<Rightarrow> bytes \<Rightarrow> send_result \<Rightarrow>
   (error \<times> ('m, 'p, 'r) connection) + ('m, 'p, 'r) connection" where
  "send c data sr =
     (case send_buf c of
        None \<Rightarrow> Inl (AttributeError, c)
      | Some buf \<Rightarrow>
          (let p = (buf \<noteq> []);
               c1 = c\<lparr>send_buf := Some (buf @ data)\<rparr>
           in if \<not> p then on_write c1 sr else Inr c1))"

definition send_frames ::
  "('m, 'p, 'r) connection \<Rightarrow> int \<Rightarrow> (int \<times> bytes) list \<Rightarrow> send_result \<Rightarrow>
   (error \<times> ('m, 'p, 'r) connection) + ('m, 'p, 'r) connection" where
  "send_frames c channel_number frames sr =
     (case encode_frames channel_number frames of
        Inl e \<Rightarrow> Inl (e, c)
      | Inr wire \<Rightarrow> send c wire sr)"

subsection \<open>The endpoint string\<close>



















section \<open>Reference definitions for the properties\<close>

text \<open>
  The wire shape of one frame as the code produces it: the kind tag on 1 byte, the channel
  id on 2 bytes and the payload length on 4 bytes, most significant byte first, then the
  payload, then the end marker. A byte is a word of 8 bits, so \<open>word_of_nat\<close> keeps the
  low 8 bits of its argument.
\<close>

definition wire_frame :: "nat \<Rightarrow> nat \<Rightarrow> bytes \<Rightarrow> bytes" where
  "wire_frame kind channel payload =
     [word_of_nat kind,
      word_of_nat (channel div 256), word_of_nat channel,
      word_of_nat (length payload div 16777216), word_of_nat (length payload div 65536),
      word_of_nat (length payload div 256), word_of_nat (length payload)]
     @ payload @ [0xCE]"

text \<open>
  The bytes of a sequence of (kind, channel, payload) tuples, each sent by
  \<^verbatim>\<open>_send_frames(channel, [(kind, payload)])\<close>, in order.
\<close>

fun encode_tuples :: "(nat \<times> nat \<times> bytes) list \<Rightarrow> error + bytes" where
  "encode_tuples [] = Inr []"
| "encode_tuples ((kind, channel, payload) # fs) =
     (case encode_frames (int channel) [(int kind, payload)] of
        Inl e \<Rightarrow> Inl e
      | Inr b \<Rightarrow> (case encode_tuples fs of Inl e \<Rightarrow> Inl e | Inr bs \<Rightarrow> Inr (b @ bs)))"

text \<open>The payload size that the frame header at \<open>offset\<close> declares.\<close>

definition declared_payload_size :: "bytes \<Rightarrow> nat \<Rightarrow> nat" where
  "declared_payload_size data offset = be_nat (take 4 (drop (offset + 3) data))"

text \<open>
  The receive cursor between two calls of \<^verbatim>\<open>on_read\<close>: fewer bytes are buffered than
  are needed, and bytes-needed is 8, or 8 plus the payload size declared by the header
  that starts the buffer.
\<close>

definition cursor_inv :: "('m, 'p, 'r) connection \<Rightarrow> bool" where
  "cursor_inv c =
     (length (recv_buf c) < recv_need c \<and>
      (recv_need c = 8 \<or>
       (8 \<le> length (recv_buf c) \<and>
        recv_need c = 8 + declared_payload_size (recv_buf c) 0)))"

text \<open>
  What the catalogue is taken to guarantee: a decoder that succeeds has read only the
  bytes between the offset it was given and the offset it returns, so it returns the same
  value on any buffer that holds the same bytes at any offset.
\<close>

definition local_decoder :: "'a decoder \<Rightarrow> bool" where
  "local_decoder decode =
     (\<forall>data offset v offset'.
        decode data offset = Inr (v, offset') \<longrightarrow>
        offset \<le> offset' \<and>
        (\<forall>data2 offset2.
           offset2 + (offset' - offset) \<le> length data2 \<and>
           take (offset' - offset) (drop offset2 data2) =
             take (offset' - offset) (drop offset data) \<longrightarrow>
           decode data2 offset2 = Inr (v, offset2 + (offset' - offset))))"

definition local_catalogue :: "('m, 'p) catalogue \<Rightarrow> bool" where
  "local_catalogue cat =
     ((\<forall>i decode. METHODS cat i = Some decode \<longrightarrow> local_decoder decode) \<and>
      (\<forall>i decode. PROPS cat i = Some decode \<longrightarrow> local_decoder decode))"

text \<open>
  The call that a (kind, channel, payload) tuple stands for: a body chunk carries its
  payload; a method payload is a 4-byte method id and the fields that the catalogue's
  decoder reads up to the end of the payload; a header payload is a 2-byte class id, 2
  reserved bytes, the 8-byte body size and the properties that the catalogue's decoder
  reads up to the end of the payload. \<open>None\<close> for any other payload or kind.
\<close>

definition frame_event ::
  "('m, 'p) catalogue \<Rightarrow> nat \<times> nat \<times> bytes \<Rightarrow> ('m, 'p) inbound option" where
  "frame_event cat f =
     (case f of (kind, channel, payload) \<Rightarrow>
        if kind = 1 then
          (if length payload < 4 then None
           else case METHODS cat (be_nat (take 4 payload)) of
                  None \<Rightarrow> None
                | Some decode \<Rightarrow>
                    (case decode payload 4 of
                       Inl e \<Rightarrow> None
                     | Inr (frame, offset) \<Rightarrow>
                         if offset = length payload then Some (Inbound_method channel frame)
                         else None))
        else if kind = 2 then
          (if length payload < 12 then None
           else case PROPS cat (be_nat (take 2 payload)) of
                  None \<Rightarrow> None
                | Some decode \<Rightarrow>
                    (case decode payload 12 of
                       Inl e \<Rightarrow> None
                     | Inr (props, offset) \<Rightarrow>
                         if offset = length payload
                         then Some (Inbound_props channel (be_nat (take 8 (drop 4 payload))) props)
                         else None))
        else if kind = 3 then Some (Inbound_body channel payload)
        else None)"

text \<open>The calls that a sequence of tuples stands for, in order.\<close>

definition frame_events ::
  "('m, 'p) catalogue \<Rightarrow> (nat \<times> nat \<times> bytes) list \<Rightarrow> ('m, 'p) inbound list" where
  "frame_events cat fs =
     concat (map (\<lambda>f. case frame_event cat f of None \<Rightarrow> [] | Some ev \<Rightarrow> [ev]) fs)"

definition well_formed ::
  "('m, 'p) catalogue \<Rightarrow> nat set \<Rightarrow> nat \<times> nat \<times> bytes \<Rightarrow> bool" where
  "well_formed cat ids f =
     (case f of (kind, channel, payload) \<Rightarrow>
        channel < 2 ^ 16 \<and> channel \<in> ids \<and> length payload < 2 ^ 32 \<and>
        frame_event cat f \<noteq> None)"

text \<open>
  A small catalogue and connection to evaluate the model on: one method (id 10) and one
  property class (id 60), each with a single one-byte field; two allocated channels; one
  pending promise and one that is already marked \<^verbatim>\<open>to_be_released\<close>. \<open>mark_done\<close> stands
  for a \<^verbatim>\<open>done\<close> that stores the result and sets the flag.
\<close>

definition decode_octet :: "byte decoder" where
  "decode_octet data offset =
     (if offset < length data then Inr (data ! offset, offset + 1) else Inl StructError)"

definition example_catalogue :: "(byte, byte) catalogue" where
  "example_catalogue =
     \<lparr>METHODS = [10 \<mapsto> decode_octet], PROPS = [60 \<mapsto> decode_octet]\<rparr>"

definition mark_done :: "'r \<Rightarrow> 'r promise \<Rightarrow> 'r promise" where
  "mark_done r p = p\<lparr>to_be_released := True, results := results p @ [r]\<rparr>"

definition example_connection :: "(byte, byte, nat result) connection" where
  "example_connection =
     \<lparr>frame_max = 131072,
      channels = \<lparr>allocated = {0, 1}, inbound = []\<rparr>,
      promises = [\<lparr>number = 1, to_be_released = False, results = []\<rparr>,
                  \<lparr>number = 2, to_be_released = True, results = [Frame 7]\<rparr>],
      recv_buf = [], recv_need = 8, send_buf = Some [],
      sd = Some (Socket 3), sd_calls = []\<rparr>"

text \<open>The example connection after \<^verbatim>\<open>_shutdown\<close> has delivered \<open>ConnectionBroken\<close>.\<close>

definition example_shut_down :: "(byte, byte, nat result) connection" where
  "example_shut_down =
     example_connection
       \<lparr>promises := [\<lparr>number = 1, to_be_released = True, results = [ConnectionBroken]\<rparr>,
                     \<lparr>number = 2, to_be_released = True, results = [Frame 7]\<rparr>],
        send_buf := None, sd := None, sd_calls := [Shutdown_RDWR, Close]\<rparr>"

section \<open>Properties\<close>

subsection \<open>Big-endian fields\<close>

lemma be_bytes_length: "length (be_bytes k n) = k"
  by (induction k) simp_all

lemma unat_byte_of_nat: "unat (word_of_nat m :: byte) = m mod 256"
  by (simp add: unat_of_nat)

lemma mod_256_Suc: "(n::nat) mod 256 ^ Suc k = (n div 256 ^ k) mod 256 * 256 ^ k + n mod 256 ^ k"
proof -
  have "n mod (256 ^ k * 256) = 256 ^ k * (n div 256 ^ k mod 256) + n mod 256 ^ k"
    by (rule mod_mult2_eq)
  moreover have "(256::nat) ^ Suc k = 256 ^ k * 256" by simp
  ultimately show ?thesis by (simp only: mult.commute)
qed

lemma be_nat_be_bytes: "be_nat (be_bytes k n) = n mod 256 ^ k"
proof (induction k)
  case 0
  show ?case by simp
next
  case (Suc k)
  have "be_nat (be_bytes (Suc k) n) = (n div 256 ^ k) mod 256 * 256 ^ k + n mod 256 ^ k"
    using Suc by (simp add: be_bytes_length unat_byte_of_nat)
  then show ?case by (simp only: mod_256_Suc)
qed

lemma be_nat_less: "be_nat bs < 256 ^ length bs"
proof (induction bs)
  case Nil
  show ?case by simp
next
  case (Cons b bs)
  have "unat b < 2 ^ 8" using unsigned_less [of b] by simp
  then have "unat b \<le> 255" by simp
  then have "unat b * 256 ^ length bs \<le> 255 * 256 ^ length bs"
    by (rule mult_le_mono1)
  with Cons.IH have "unat b * 256 ^ length bs + be_nat bs < 256 * 256 ^ length bs"
    by linarith
  then show ?case by simp
qed

lemma be_bytes_1: "be_bytes 1 n = [word_of_nat n]"
  by simp

lemma be_bytes_2: "be_bytes 2 n = [word_of_nat (n div 256), word_of_nat n]"
proof -
  have e: "(2::nat) = Suc (Suc 0)" by simp
  show ?thesis unfolding e by simp
qed

lemma be_bytes_4:
  "be_bytes 4 n = [word_of_nat (n div 16777216), word_of_nat (n div 65536),
                   word_of_nat (n div 256), word_of_nat n]"
proof -
  have e: "(4::nat) = Suc (Suc (Suc (Suc 0)))" by simp
  show ?thesis unfolding e by simp
qed

lemma wire_frame_be:
  "wire_frame kind channel payload =
     be_bytes 1 kind @ be_bytes 2 channel @ be_bytes 4 (length payload) @ payload @ [0xCE]"
  unfolding wire_frame_def be_bytes_1 be_bytes_2 be_bytes_4 by simp

lemma length_wire_frame: "length (wire_frame kind channel payload) = 8 + length payload"
  by (simp add: wire_frame_def)

lemma frame_bytes_wire:
  assumes "kind < 2 ^ 8" "channel < 2 ^ 16" "length payload < 2 ^ 32"
  shows "frame_bytes (int kind) (int channel) payload = Inr (wire_frame kind channel payload)"
proof -
  have "int kind < 2 ^ 8" "int channel < 2 ^ 16" "int (length payload) < 2 ^ 32"
    using assms by simp_all
  then show ?thesis
    by (simp add: frame_bytes_def pack_BHI_def wire_frame_be)
qed


lemma unpack_wire_frame:
  assumes "kind < 2 ^ 8" "channel < 2 ^ 16" "length payload < 2 ^ 32"
  shows "unpack_from_BHI (pre @ wire_frame kind channel payload @ post) (length pre) =
         Inr (kind, channel, length payload)"
proof -
  have "be_nat (be_bytes 1 kind) = kind" "be_nat (be_bytes 2 channel) = channel"
     "be_nat (be_bytes 4 (length payload)) = length payload"
    using assms by (simp_all only: be_nat_be_bytes) simp_all
  then show ?thesis
    by (simp add: unpack_from_BHI_def wire_frame_be be_bytes_length)
qed

lemma encode_frames_wire:
  assumes "channel < 2 ^ 16"
    and "\<forall>(kind, payload) \<in> set frames. kind < 2 ^ 8 \<and> length payload < 2 ^ 32"
  shows "encode_frames (int channel) (map (\<lambda>(kind, payload). (int kind, payload)) frames) =
         Inr (concat (map (\<lambda>(kind, payload). wire_frame kind channel payload) frames))"
  using assms(2)
proof (induction frames)
  case Nil
  show ?case by simp
next
  case (Cons f frames)
  obtain kind payload where f: "f = (kind, payload)" by (cases f)
  with Cons.prems have "kind < 2 ^ 8" "length payload < 2 ^ 32" by simp_all
  then have "frame_bytes (int kind) (int channel) payload = Inr (wire_frame kind channel payload)"
    using assms(1) by (simp add: frame_bytes_wire)
  moreover have "encode_frames (int channel) (map (\<lambda>(kind, payload). (int kind, payload)) frames) =
         Inr (concat (map (\<lambda>(kind, payload). wire_frame kind channel payload) frames))"
    using Cons by simp
  ultimately show ?case by (simp add: f)
qed

subsection \<open>Wire framing\<close>

text \<open>
  Claim C4, as amended. Every frame that \<^verbatim>\<open>_send_frames\<close> encodes consists of a 7-byte
  frame header (the kind tag on 1 byte, the channel id on 2 bytes and the payload length
  on 4 bytes, both most significant byte first), the payload, and the end marker
  \<open>0xCE\<close>; the frames are concatenated in input order. The length field counts the payload
  bytes only, so a frame occupies 7 + payload length + 1 bytes, and the header that
  \<^verbatim>\<open>_handle_read\<close> unpacks at the start of a frame gives back the kind, the channel and
  the payload length.
\<close>

theorem encode_frames_wire_layout:
  assumes "channel < 2 ^ 16"
    and "\<forall>(kind, payload) \<in> set frames. kind < 2 ^ 8 \<and> length payload < 2 ^ 32"
  shows "encode_frames (int channel) (map (\<lambda>(kind, payload). (int kind, payload)) frames) =
           Inr (concat (map (\<lambda>(kind, payload). wire_frame kind channel payload) frames)) \<and>
         (\<forall>(kind, payload) \<in> set frames.
            length (wire_frame kind channel payload) = 7 + length payload + 1 \<and>
            unpack_from_BHI (wire_frame kind channel payload) 0 =
              Inr (kind, channel, length payload) \<and>
            take (length payload) (drop 7 (wire_frame kind channel payload)) = payload \<and>
            wire_frame kind channel payload ! (7 + length payload) = 0xCE)"
proof (intro conjI ballI)
  show "encode_frames (int channel) (map (\<lambda>(kind, payload). (int kind, payload)) frames) =
           Inr (concat (map (\<lambda>(kind, payload). wire_frame kind channel payload) frames))"
    using assms by (rule encode_frames_wire)
next
  fix f assume f: "f \<in> set frames"
  obtain kind payload where fe: "f = (kind, payload)" by (cases f)
  from f fe assms(2) have r: "kind < 2 ^ 8" "length payload < 2 ^ 32" by auto
  have u: "unpack_from_BHI (wire_frame kind channel payload) 0 =
              Inr (kind, channel, length payload)"
    using unpack_wire_frame [OF r(1) assms(1) r(2), of "[]" "[]"] by simp
  have l: "length (wire_frame kind channel payload) = 7 + length payload + 1"
    by (simp add: wire_frame_def)
  have t: "take (length payload) (drop 7 (wire_frame kind channel payload)) = payload"
    by (simp add: wire_frame_def)
  have e: "wire_frame kind channel payload ! (7 + length payload) = 0xCE"
    by (simp add: wire_frame_def nth_append)
  show "case f of (kind, payload) \<Rightarrow>
            length (wire_frame kind channel payload) = 7 + length payload + 1 \<and>
            unpack_from_BHI (wire_frame kind channel payload) 0 =
              Inr (kind, channel, length payload) \<and>
            take (length payload) (drop 7 (wire_frame kind channel payload)) = payload \<and>
            wire_frame kind channel payload ! (7 + length payload) = 0xCE"
    using u l t e by (simp add: fe)
qed

text \<open>
  A body frame with payload \<open>[7, 8]\<close> and an empty method frame on channel 258: the channel
  id is the bytes 1, 2 and the lengths are the bytes 0, 0, 0, 2 and 0, 0, 0, 0.
\<close>

theorem encode_frames_wire_layout_witness:
  "encode_frames 258 [(3, [7, 8]), (1, [])] =
     Inr [3, 1, 2, 0, 0, 0, 2, 7, 8, 0xCE, 1, 1, 2, 0, 0, 0, 0, 0xCE]"
  using encode_frames_wire_layout [of 258 "[(3, [7, 8]), (1, [])]"]
  by (simp add: wire_frame_def)

text \<open>
  The claim as stated gives a frame 8 + payload length + 1 bytes. A frame with an empty
  payload is 8 bytes long, not 9.
\<close>

theorem empty_frame_is_eight_bytes:
  "frame_bytes 1 0 [] = Inr [1, 0, 0, 0, 0, 0, 0, 0xCE] \<and>
   length [1, 0, 0, 0, 0, 0, 0, 0xCE :: byte] \<noteq> 8 + length ([] :: bytes) + 1"
  by (simp add: frame_bytes_def pack_BHI_def be_bytes_2 be_bytes_4)

subsection \<open>Unknown frame kinds\<close>

text \<open>
  Claim C10. When the buffer holds, at the offset, a whole frame with a valid end marker
  whose kind tag is not 1, 2 or 3, \<^verbatim>\<open>_handle_read\<close> fails its assertion and leaves the
  channel table as it was; the decode loop stops with that failure; and \<^verbatim>\<open>on_read\<close>
  raises it with nothing dispatched, bytes-needed unchanged and the frame still in the
  receive buffer.
\<close>

theorem unknown_frame_type_fails_assertion:
  assumes "unpack_from_BHI data start_offset = Inr (frame_type, channel, payload_size)"
    and "start_offset + 8 + payload_size \<le> length data"
    and "data ! (start_offset + 7 + payload_size) = 0xCE"
    and "frame_type \<notin> {1, 2, 3}"
  shows "handle_read cat chs data start_offset = Inl (AssertionError, chs) \<and>
         (start_offset + need \<le> length data \<longrightarrow>
            read_loop cat data start_offset need chs = Inl (AssertionError, need, chs)) \<and>
         (start_offset = 0 \<and> data = recv_buf c @ r \<and> r \<noteq> [] \<and> sd c \<noteq> None \<and>
          recv_need c \<le> length data \<and> chs = channels c \<longrightarrow>
            on_read cat done c (Recv r) = Inl (AssertionError, c\<lparr>recv_buf := data\<rparr>))"
proof -
  have h: "handle_read cat chs data start_offset = Inl (AssertionError, chs)"
    using assms by (simp add: handle_read_def dispatch_frame_def Let_def)
  have l: "read_loop cat data start_offset n chs = Inl (AssertionError, n, chs)"
    if "start_offset + n \<le> length data" for n
    using that h by (subst read_loop.simps) simp
  have "on_read cat done c (Recv r) = Inl (AssertionError, c\<lparr>recv_buf := data\<rparr>)"
    if "start_offset = 0" "data = recv_buf c @ r" "r \<noteq> []" "sd c \<noteq> None"
       "recv_need c \<le> length data" "chs = channels c"
    using that l [of "recv_need c"] by (auto simp: on_read_def Let_def)
  with h l show ?thesis by blast
qed

theorem unknown_frame_type_fails_assertion_witness:
  "handle_read example_catalogue (channels example_connection)
     [4, 0, 0, 0, 0, 0, 1, 9, 0xCE] 0 =
     Inl (AssertionError, channels example_connection) \<and>
   on_read example_catalogue mark_done example_connection
     (Recv [4, 0, 0, 0, 0, 0, 1, 9, 0xCE]) =
     Inl (AssertionError, example_connection\<lparr>recv_buf := [4, 0, 0, 0, 0, 0, 1, 9, 0xCE]\<rparr>)"
  using unknown_frame_type_fails_assertion
    [of "[4, 0, 0, 0, 0, 0, 1, 9, 0xCE]" 0 4 0 1 example_catalogue
        "channels example_connection" 8 example_connection
        "[4, 0, 0, 0, 0, 0, 1, 9, 0xCE]" mark_done]
  by (simp add: unpack_from_BHI_def example_connection_def)

subsection \<open>Frame size negotiation\<close>

text \<open>
  Claim C8, as amended. For every current ceiling \<open>c\<close> and every proposed value \<open>v\<close>,
  \<^verbatim>\<open>_tune_frame_max(v)\<close> sets and returns the minimum of \<open>c\<close> and (\<open>v\<close> if \<open>v\<close> is not zero,
  else \<open>2 ^ 19\<close>). So \<^verbatim>\<open>_tune_frame_max(0)\<close> yields the minimum of \<open>c\<close> and \<open>2 ^ 19\<close>: the large
  default only for a ceiling of at least \<open>2 ^ 19\<close>, and the unchanged ceiling otherwise. A
  proposed value that is not zero and smaller than \<open>c\<close> lowers the ceiling to it, and no
  proposed value raises the ceiling above \<open>c\<close>.
\<close>

theorem tune_frame_max_is_min:
  "tune_frame_max c v = min c (if v \<noteq> 0 then v else 2 ^ 19) \<and>
   tune_frame_max c 0 = min c (2 ^ 19) \<and>
   (2 ^ 19 \<le> c \<longrightarrow> tune_frame_max c 0 = 2 ^ 19) \<and>
   (c \<le> 2 ^ 19 \<longrightarrow> tune_frame_max c 0 = c) \<and>
   (v \<noteq> 0 \<and> v < c \<longrightarrow> tune_frame_max c v = v) \<and>
   tune_frame_max c v \<le> c"
  by (simp add: tune_frame_max_def)

theorem tune_frame_max_is_min_witness:
  "tune_frame_max 131072 4096 = 4096 \<and> tune_frame_max 1048576 0 = 524288 \<and>
   tune_frame_max 4096 0 = 4096 \<and> tune_frame_max 4096 131072 = 4096"
  using tune_frame_max_is_min [of 131072 4096] tune_frame_max_is_min [of 1048576 0]
    tune_frame_max_is_min [of 4096 131072]
  by simp

text \<open>
  On a connection that still has the ceiling of the class, 131072, \<^verbatim>\<open>_tune_frame_max(0)\<close>
  does not yield the large default \<open>2 ^ 19\<close>.
\<close>

theorem tune_frame_max_zero_on_default:
  "tune_frame_max default_frame_max 0 = 131072 \<and> tune_frame_max default_frame_max 0 \<noteq> 2 ^ 19"
  by (simp add: tune_frame_max_def default_frame_max_def)

subsection \<open>Endpoint parsing\<close>



subsection \<open>Shutdown\<close>

text \<open>
  Claim C7. On a connection with a socket, \<^verbatim>\<open>_shutdown(reason)\<close> returns normally; it has
  called \<^verbatim>\<open>done(reason)\<close> on exactly the promises whose \<^verbatim>\<open>to_be_released\<close> flag is false
  and left the others as they were; the socket has been shut down and closed and
  \<^verbatim>\<open>self.sd\<close> and \<^verbatim>\<open>self.send_buf\<close> are \<open>None\<close>; the receive cursor, the channel table and the
  frame ceiling are unchanged; and from then on every \<^verbatim>\<open>_send\<close> and every \<^verbatim>\<open>on_write\<close>
  raises, leaving the connection as it is.
\<close>

theorem shutdown_delivers_and_closes:
  assumes "sd c = Some s"
  shows "case shutdown done c result of
           Inl e \<Rightarrow> False
         | Inr c' \<Rightarrow>
             promises c' =
               map (\<lambda>p. if to_be_released p then p else done result p) (promises c) \<and>
             sd_calls c' = sd_calls c @ [Shutdown_RDWR, Close] \<and>
             sd c' = None \<and> send_buf c' = None \<and>
             recv_buf c' = recv_buf c \<and> recv_need c' = recv_need c \<and>
             channels c' = channels c \<and> frame_max c' = frame_max c \<and>
             (\<forall>data sr. send c' data sr = Inl (AttributeError, c')) \<and>
             (\<forall>sr. on_write c' sr = Inl (AttributeError, c'))"
proof -
  have "(\<lambda>p. if to_be_released p = False then done result p else p) =
        (\<lambda>p. if to_be_released p then p else done result p)"
    by auto
  then show ?thesis
    using assms by (simp add: shutdown_def Let_def send_def on_write_def)
qed

theorem shutdown_delivers_and_closes_witness:
  "shutdown mark_done example_connection ConnectionBroken = Inr example_shut_down \<and>
   send example_shut_down [1, 2] (Sent 2) = Inl (AttributeError, example_shut_down)"
  using shutdown_delivers_and_closes [of example_connection "Socket 3" mark_done ConnectionBroken]
  by (simp add: example_connection_def example_shut_down_def shutdown_def mark_done_def send_def)

text \<open>
  Claim C6, as amended. Shutdown is not idempotent: once \<^verbatim>\<open>_shutdown\<close> has returned, a
  second call with any reason raises \<^verbatim>\<open>AttributeError\<close> on the socket that is \<open>None\<close>,
  after its promise loop has called \<^verbatim>\<open>done\<close> again on exactly the promises whose
  \<^verbatim>\<open>to_be_released\<close> flag is still false. When the \<^verbatim>\<open>done\<close> of the first call has set that
  flag on the promises it completed, the second call delivers nothing and changes
  nothing before it raises.
\<close>

theorem second_shutdown_raises:
  assumes "shutdown done c r1 = Inr c1"
  shows "shutdown done c1 r2 =
           Inl (AttributeError,
                c1\<lparr>promises :=
                      map (\<lambda>p. if to_be_released p then p else done r2 p) (promises c1)\<rparr>) \<and>
         ((\<forall>p \<in> set (promises c). \<not> to_be_released p \<longrightarrow> to_be_released (done r1 p)) \<longrightarrow>
            shutdown done c1 r2 = Inl (AttributeError, c1))"
proof -
  have e: "(\<lambda>p. if to_be_released p = False then done r p else p) =
        (\<lambda>p. if to_be_released p then p else done r p)" for r
    by auto
  from assms have c1: "sd c1 = None"
      "promises c1 = map (\<lambda>p. if to_be_released p then p else done r1 p) (promises c)"
    by (auto simp: shutdown_def Let_def e split: option.splits)
  have 1: "shutdown done c1 r2 =
           Inl (AttributeError,
                c1\<lparr>promises :=
                      map (\<lambda>p. if to_be_released p then p else done r2 p) (promises c1)\<rparr>)"
    using c1(1) by (simp add: shutdown_def Let_def e)
  have "map (\<lambda>p. if to_be_released p then p else done r2 p) (promises c1) = promises c1"
    if "\<forall>p \<in> set (promises c). \<not> to_be_released p \<longrightarrow> to_be_released (done r1 p)"
    using that unfolding c1(2) by (induction "promises c") auto
  with 1 show ?thesis by simp
qed

theorem second_shutdown_raises_witness:
  "shutdown mark_done example_connection (Frame 5) =
     Inr (example_connection
            \<lparr>promises := [\<lparr>number = 1, to_be_released = True, results = [Frame 5]\<rparr>,
                          \<lparr>number = 2, to_be_released = True, results = [Frame 7]\<rparr>],
             send_buf := None, sd := None, sd_calls := [Shutdown_RDWR, Close]\<rparr>) \<and>
   shutdown mark_done
     (example_connection
            \<lparr>promises := [\<lparr>number = 1, to_be_released = True, results = [Frame 5]\<rparr>,
                          \<lparr>number = 2, to_be_released = True, results = [Frame 7]\<rparr>],
             send_buf := None, sd := None, sd_calls := [Shutdown_RDWR, Close]\<rparr>) (Frame 6) =
     Inl (AttributeError,
          example_connection
            \<lparr>promises := [\<lparr>number = 1, to_be_released = True, results = [Frame 5]\<rparr>,
                          \<lparr>number = 2, to_be_released = True, results = [Frame 7]\<rparr>],
             send_buf := None, sd := None, sd_calls := [Shutdown_RDWR, Close]\<rparr>)"
proof -
  have s: "shutdown mark_done example_connection (Frame 5) =
     Inr (example_connection
            \<lparr>promises := [\<lparr>number = 1, to_be_released = True, results = [Frame 5]\<rparr>,
                          \<lparr>number = 2, to_be_released = True, results = [Frame 7]\<rparr>],
             send_buf := None, sd := None, sd_calls := [Shutdown_RDWR, Close]\<rparr>)"
    by (simp add: example_connection_def shutdown_def mark_done_def)
  show ?thesis
    using s second_shutdown_raises [OF s, of "Frame 6"]
    by (simp add: example_connection_def mark_done_def)
qed

text \<open>
  The claim as stated has the second call return without an error. On the example
  connection, with a \<^verbatim>\<open>done\<close> that sets the flag, the second call raises.
\<close>

theorem shutdown_twice_on_example:
  "shutdown mark_done example_connection ConnectionBroken = Inr example_shut_down \<and>
   shutdown mark_done example_shut_down ConnectionBroken = Inl (AttributeError, example_shut_down)"
  by (simp add: example_connection_def example_shut_down_def shutdown_def mark_done_def)

subsection \<open>Zero-byte reads and would-block\<close>

text \<open>
  Claim C5. On a connection with a socket, a receive that fails with \<^verbatim>\<open>EAGAIN\<close> makes
  \<^verbatim>\<open>on_read\<close> return with the connection unchanged; a receive of zero bytes, with fewer
  bytes buffered than needed (as between any two calls of \<^verbatim>\<open>on_read\<close>), does what
  \<^verbatim>\<open>_shutdown\<close> does with the connection-broken result: every promise whose
  \<^verbatim>\<open>to_be_released\<close> flag is false gets \<^verbatim>\<open>done\<close> with it, and the socket and the send
  buffer are released.
\<close>

theorem on_read_zero_bytes_and_would_block:
  assumes "sd c = Some s"
  shows "on_read cat done c (Recv_error EAGAIN) = Inr c \<and>
         (length (recv_buf c) < recv_need c \<longrightarrow>
            on_read cat done c (Recv []) = shutdown done c ConnectionBroken \<and>
            on_read cat done c (Recv []) =
              Inr (c\<lparr>promises :=
                        map (\<lambda>p. if to_be_released p then p else done ConnectionBroken p)
                            (promises c),
                      sd_calls := sd_calls c @ [Shutdown_RDWR, Close],
                      sd := None, send_buf := None\<rparr>))"
proof -
  have e: "(\<lambda>p. if to_be_released p = False then done r p else p) =
        (\<lambda>p. if to_be_released p then p else done r p)" for r
    by auto
  show ?thesis
    using assms by (simp add: on_read_def shutdown_def Let_def e)
qed

theorem on_read_zero_bytes_and_would_block_witness:
  "on_read example_catalogue mark_done example_connection (Recv_error EAGAIN) =
     Inr example_connection \<and>
   on_read example_catalogue mark_done example_connection (Recv []) = Inr example_shut_down"
  using on_read_zero_bytes_and_would_block [of example_connection "Socket 3" example_catalogue mark_done]
  by (simp add: example_connection_def example_shut_down_def mark_done_def shutdown_def)

subsection \<open>The receive cursor\<close>

lemma handle_read_Inr:
  assumes "handle_read cat chs data offset = Inr (offset', need', chs')"
  shows "(length data < offset + 8 \<and> offset' = offset \<and> need' = 8 \<and> chs' = chs) \<or>
         (offset + 8 \<le> length data \<and>
          length data < offset + 8 + declared_payload_size data offset \<and>
          offset' = offset \<and> need' = 8 + declared_payload_size data offset \<and> chs' = chs) \<or>
         (offset + 8 + declared_payload_size data offset \<le> length data \<and>
          offset' = offset + 8 + declared_payload_size data offset \<and> need' = 8)"
  using assms
  by (auto simp: handle_read_def unpack_from_BHI_def declared_payload_size_def Let_def
           split: if_splits sum.splits prod.splits)

lemma read_loop_calls_shape:
  "\<forall>(offset, need, offset', need') \<in> set (read_loop_calls cat data offset0 need0 chs).
     offset + need \<le> length data \<and>
     ((offset' = offset + 8 + declared_payload_size data offset \<and> need' = 8 \<and>
       offset' \<le> length data) \<or>
      (offset' = offset \<and> need' = 8 + declared_payload_size data offset \<and>
       offset + 8 \<le> length data \<and> length data < offset + need') \<or>
      (offset' = offset \<and> need' = 8 \<and> length data < offset + 8))"
proof (induction cat data offset0 need0 chs rule: read_loop_calls.induct)
  case (1 cat data offset recv_need chs)
  show ?case
  proof (cases "offset + recv_need \<le> length data")
    case False
    then show ?thesis by (subst read_loop_calls.simps) simp
  next
    case guard: True
    show ?thesis
    proof (cases "handle_read cat chs data offset")
      case (Inl e)
      with guard show ?thesis by (subst read_loop_calls.simps) (simp split: prod.splits)
    next
      case (Inr r)
      obtain offset' need' chs' where r: "r = (offset', need', chs')" by (cases r)
      note hr = Inr [unfolded r]
      from handle_read_Inr [OF hr]
      have step: "(offset' = offset + 8 + declared_payload_size data offset \<and> need' = 8 \<and>
             offset' \<le> length data) \<or>
            (offset' = offset \<and> need' = 8 + declared_payload_size data offset \<and>
             offset + 8 \<le> length data \<and> length data < offset + need') \<or>
            (offset' = offset \<and> need' = 8 \<and> length data < offset + 8)"
        by auto
      have "read_loop_calls cat data offset recv_need chs =
              (offset, recv_need, offset', need') # read_loop_calls cat data offset' need' chs'"
        using guard hr by (subst read_loop_calls.simps) simp
      with "1.IH" [OF guard hr refl refl] step guard show ?thesis by simp
    qed
  qed
qed

lemma read_loop_calls_guarded:
  assumes "8 \<le> need0"
  shows "\<forall>(offset, need, offset', need') \<in> set (read_loop_calls cat data offset0 need0 chs).
           offset + need \<le> length data \<and> 8 \<le> need \<and>
           ((offset' = offset + 8 + declared_payload_size data offset \<and> need' = 8 \<and>
             offset' \<le> length data) \<or>
            (offset' = offset \<and> need' = 8 + declared_payload_size data offset \<and>
             length data < offset + need'))"
  using assms
proof (induction cat data offset0 need0 chs rule: read_loop_calls.induct)
  case (1 cat data offset recv_need chs)
  show ?case
  proof (cases "offset + recv_need \<le> length data")
    case False
    then show ?thesis by (subst read_loop_calls.simps) simp
  next
    case guard: True
    show ?thesis
    proof (cases "handle_read cat chs data offset")
      case (Inl e)
      with guard show ?thesis by (subst read_loop_calls.simps) (simp split: prod.splits)
    next
      case (Inr r)
      obtain offset' need' chs' where r: "r = (offset', need', chs')" by (cases r)
      note hr = Inr [unfolded r]
      from handle_read_Inr [OF hr] guard "1.prems"
      have step: "(offset' = offset + 8 + declared_payload_size data offset \<and> need' = 8 \<and>
             offset' \<le> length data) \<or>
            (offset' = offset \<and> need' = 8 + declared_payload_size data offset \<and>
             length data < offset + need')"
        by auto
      then have "8 \<le> need'" by auto
      from "1.IH" [OF guard hr refl refl this]
      have rest: "\<forall>(offset, need, offset', need') \<in> set (read_loop_calls cat data offset' need' chs').
           offset + need \<le> length data \<and> 8 \<le> need \<and>
           ((offset' = offset + 8 + declared_payload_size data offset \<and> need' = 8 \<and>
             offset' \<le> length data) \<or>
            (offset' = offset \<and> need' = 8 + declared_payload_size data offset \<and>
             length data < offset + need'))" .
      have "read_loop_calls cat data offset recv_need chs =
              (offset, recv_need, offset', need') # read_loop_calls cat data offset' need' chs'"
        using guard hr by (subst read_loop_calls.simps) simp
      with rest step guard "1.prems" show ?thesis by simp
    qed
  qed
qed

lemma read_loop_post:
  assumes "read_loop cat data offset need chs = Inr (offset', need', chs')"
    and "offset \<le> length data"
    and "need = 8 \<or> (offset + 8 \<le> length data \<and> need = 8 + declared_payload_size data offset)"
  shows "offset \<le> offset' \<and> offset' \<le> length data \<and> length data < offset' + need' \<and>
         (need' = 8 \<or>
          (offset' + 8 \<le> length data \<and> need' = 8 + declared_payload_size data offset'))"
  using assms
proof (induction cat data offset need chs rule: read_loop.induct)
  case (1 cat data offset recv_need chs)
  show ?case
  proof (cases "offset + recv_need \<le> length data")
    case False
    with "1.prems" show ?thesis by (subst (asm) read_loop.simps) auto
  next
    case guard: True
    show ?thesis
    proof (cases "handle_read cat chs data offset")
      case (Inl e)
      with guard "1.prems"(1) show ?thesis
        by (subst (asm) read_loop.simps) (simp split: prod.splits)
    next
      case (Inr r)
      obtain o1 n1 chs1 where r: "r = (o1, n1, chs1)" by (cases r)
      note hr = Inr [unfolded r]
      from handle_read_Inr [OF hr] guard "1.prems"(2,3)
      have step: "o1 \<le> length data" "offset \<le> o1"
         "n1 = 8 \<or> (o1 + 8 \<le> length data \<and> n1 = 8 + declared_payload_size data o1)"
        by auto
      have "read_loop cat data o1 n1 chs1 = Inr (offset', need', chs')"
        using "1.prems"(1) guard hr by (subst (asm) read_loop.simps) simp
      from "1.IH" [OF guard hr refl refl this step(1) step(3)] step(2)
      show ?thesis by simp
    qed
  qed
qed


lemma declared_payload_size_drop:
  "declared_payload_size (drop k data) 0 = declared_payload_size data k"
  by (simp add: declared_payload_size_def add.commute)

lemma declared_payload_size_append:
  "offset + 7 \<le> length data \<Longrightarrow>
   declared_payload_size (data @ tail) offset = declared_payload_size data offset"
  by (simp add: declared_payload_size_def)

lemma shutdown_cursor:
  "shutdown done c result = Inr c1 \<Longrightarrow>
   recv_buf c1 = recv_buf c \<and> recv_need c1 = recv_need c \<and> channels c1 = channels c"
  by (auto simp: shutdown_def Let_def split: option.splits)

lemma on_read_Recv:
  assumes "sd c = Some s"
    and "(if r = [] then shutdown done c ConnectionBroken else Inr c) = Inr c1"
  shows "on_read cat done c (Recv r) =
           (if recv_need c1 \<le> length (recv_buf c1 @ r) then
              (case read_loop cat (recv_buf c1 @ r) 0 (recv_need c1) (channels c1) of
                 Inl (e, need, chs) \<Rightarrow>
                   Inl (e, c1\<lparr>recv_buf := recv_buf c1 @ r, recv_need := need, channels := chs\<rparr>)
               | Inr (offset, need, chs) \<Rightarrow>
                   Inr (c1\<lparr>recv_buf := drop offset (recv_buf c1 @ r), recv_need := need,
                           channels := chs\<rparr>))
            else Inr (c1\<lparr>recv_buf := recv_buf c1 @ r\<rparr>))"
  using assms
  by (simp add: on_read_def Let_def split: sum.splits prod.splits)

lemma on_read_Inr_Recv:
  assumes "on_read cat done c (Recv r) = Inr c'"
  shows "\<exists>s c1. sd c = Some s \<and>
           (if r = [] then shutdown done c ConnectionBroken else Inr c) = Inr c1"
  using assms
  by (auto simp: on_read_def split: option.splits sum.splits if_splits)

lemma on_read_cursor_inv:
  assumes inv: "cursor_inv c" and ok: "on_read cat done c rr = Inr c'"
  shows "cursor_inv c'"
proof (cases rr)
  case (Recv_error e)
  with ok have "c' = c"
    by (auto simp: on_read_def split: option.splits if_splits)
  with inv show ?thesis by simp
next
  case (Recv r)
  from ok Recv on_read_Inr_Recv [of cat "done" c r c'] obtain s c1 where s: "sd c = Some s"
    and c1: "(if r = [] then shutdown done c ConnectionBroken else Inr c) = Inr c1"
    by auto
  have same: "recv_buf c1 = recv_buf c" "recv_need c1 = recv_need c"
    using c1 shutdown_cursor [of "done" c ConnectionBroken c1]
    by (auto split: if_splits)
  define data where "data = recv_buf c1 @ r"
  note form = on_read_Recv [OF s c1, of cat, folded data_def]
  from inv have pre: "recv_need c1 = 8 \<or>
      (0 + 8 \<le> length data \<and> recv_need c1 = 8 + declared_payload_size data 0)"
    by (auto simp: cursor_inv_def data_def same declared_payload_size_append)
  show ?thesis
  proof (cases "recv_need c1 \<le> length data")
    case False
    with ok Recv form have c': "c' = c1\<lparr>recv_buf := data\<rparr>"
      by simp
    from False pre show ?thesis
      by (auto simp: cursor_inv_def c')
  next
    case True
    with ok Recv form obtain offset need chs where
      loop: "read_loop cat data 0 (recv_need c1) (channels c1) = Inr (offset, need, chs)"
      and c': "c' = c1\<lparr>recv_buf := drop offset data, recv_need := need, channels := chs\<rparr>"
      by (auto split: sum.splits prod.splits)
    from read_loop_post [OF loop _ pre]
    have "offset \<le> length data" "length data < offset + need"
      "need = 8 \<or> (offset + 8 \<le> length data \<and> need = 8 + declared_payload_size data offset)"
      by simp_all
    then show ?thesis
      by (auto simp: cursor_inv_def c' declared_payload_size_drop)
  qed
qed

text \<open>
  Claim C3. The decode loop of \<^verbatim>\<open>on_read\<close> calls \<^verbatim>\<open>_handle_read\<close> only at an offset with
  at least bytes-needed unread bytes behind it, and every call that returns either has
  decoded a frame, moving the offset behind it and setting bytes-needed to 8, or has seen
  a header whose payload is incomplete, leaving the offset unchanged and setting
  bytes-needed to 8 plus the declared payload size, or has seen less than a header,
  leaving the offset unchanged and setting bytes-needed to 8. The last case does not occur
  when the loop starts with a bytes-needed value of at least 8 (it is 8 after
  \<^verbatim>\<open>_init_buffers\<close>), and bytes-needed then stays at least 8. The cursor invariant (fewer bytes
  buffered than needed, and bytes-needed is 8 or 8 plus the payload size declared at the
  start of the buffer) holds after \<^verbatim>\<open>_init_buffers\<close> and is kept by every \<^verbatim>\<open>on_read\<close> that
  returns.
\<close>

theorem receive_cursor_invariant:
  "(\<forall>(offset, need, offset', need') \<in> set (read_loop_calls cat data offset0 need0 chs).
      offset + need \<le> length data \<and>
      ((offset' = offset + 8 + declared_payload_size data offset \<and> need' = 8 \<and>
        offset' \<le> length data) \<or>
       (offset' = offset \<and> need' = 8 + declared_payload_size data offset \<and>
        offset + 8 \<le> length data \<and> length data < offset + need') \<or>
       (offset' = offset \<and> need' = 8 \<and> length data < offset + 8))) \<and>
   (8 \<le> need0 \<longrightarrow>
      (\<forall>(offset, need, offset', need') \<in> set (read_loop_calls cat data offset0 need0 chs).
         offset + need \<le> length data \<and> 8 \<le> need \<and>
         ((offset' = offset + 8 + declared_payload_size data offset \<and> need' = 8 \<and>
           offset' \<le> length data) \<or>
          (offset' = offset \<and> need' = 8 + declared_payload_size data offset \<and>
           length data < offset + need')))) \<and>
   cursor_inv (init_buffers c0) \<and>
   (cursor_inv c \<and> on_read cat done c rr = Inr c' \<longrightarrow> cursor_inv c')"
proof -
  have "cursor_inv (init_buffers c0)"
    by (simp add: cursor_inv_def init_buffers_def)
  then show ?thesis
    using read_loop_calls_shape [of cat data offset0 need0 chs]
      read_loop_calls_guarded [of need0 cat data offset0 chs]
      on_read_cursor_inv [of c cat "done" rr "c'"]
    by blast
qed

theorem receive_cursor_invariant_witness:
  "read_loop_calls example_catalogue
     [3, 0, 1, 0, 0, 0, 2, 7, 8, 0xCE, 3, 0, 1, 0, 0, 0, 5, 1] 0 8
     (channels example_connection) = [(0, 8, 10, 8), (10, 8, 10, 13)] \<and>
   cursor_inv example_connection \<and>
   on_read example_catalogue mark_done example_connection (Recv [3, 0, 1, 0, 0, 0, 2, 7]) =
     Inr (example_connection\<lparr>recv_buf := [3, 0, 1, 0, 0, 0, 2, 7], recv_need := 10\<rparr>) \<and>
   cursor_inv (example_connection\<lparr>recv_buf := [3, 0, 1, 0, 0, 0, 2, 7], recv_need := 10\<rparr>)"
proof -
  have calls: "read_loop_calls example_catalogue
     [3, 0, 1, 0, 0, 0, 2, 7, 8, 0xCE, 3, 0, 1, 0, 0, 0, 5, 1] 0 8
     (channels example_connection) = [(0, 8, 10, 8), (10, 8, 10, 13)]"
    by (simp add: read_loop_calls.simps handle_read_def unpack_from_BHI_def dispatch_frame_def
          deliver_def example_connection_def)
  have inv: "cursor_inv example_connection"
    by (simp add: cursor_inv_def example_connection_def)
  have rd: "on_read example_catalogue mark_done example_connection
       (Recv [3, 0, 1, 0, 0, 0, 2, 7]) =
     Inr (example_connection\<lparr>recv_buf := [3, 0, 1, 0, 0, 0, 2, 7], recv_need := 10\<rparr>)"
    by (simp add: on_read_def read_loop.simps handle_read_def unpack_from_BHI_def
          example_connection_def)
  from receive_cursor_invariant [of example_catalogue
        "[3, 0, 1, 0, 0, 0, 2, 7, 8, 0xCE, 3, 0, 1, 0, 0, 0, 5, 1]" 0 8
        "channels example_connection" example_connection example_connection
        mark_done "Recv [3, 0, 1, 0, 0, 0, 2, 7]"
        "example_connection\<lparr>recv_buf := [3, 0, 1, 0, 0, 0, 2, 7], recv_need := 10\<rparr>"]
    calls inv rd
  show ?thesis by simp
qed

subsection \<open>Decoding in a window of the buffer\<close>

text \<open>
  With a catalogue whose decoders are local, \<^verbatim>\<open>_handle_read\<close> decodes a frame exactly when
  the bytes at the offset are the header, payload and end marker of a tuple that the
  catalogue accepts, and then it dispatches the call the tuple stands for. So the result
  depends only on the bytes of the frame, not on what precedes or follows them in the
  buffer.
\<close>

lemma window_slice:
  assumes "take w (drop offset d) = win" and "k + n \<le> w"
  shows "take n (drop (offset + k) d) = take n (drop k win)"
proof -
  have "take n (drop k win) = take n (take (w - k) (drop k (drop offset d)))"
    by (simp add: assms(1) [symmetric] drop_take)
  also have "\<dots> = take n (drop (offset + k) d)"
    using assms(2) by (simp add: min_def add.commute)
  finally show ?thesis by simp
qed

lemma window_nth:
  assumes "take w (drop offset d) = win" and "k < w" and "offset + w \<le> length d"
  shows "d ! (offset + k) = win ! k"
proof -
  have "win ! k = drop offset d ! k"
    using assms(2) by (simp add: assms(1) [symmetric])
  also have "\<dots> = d ! (offset + k)"
    using assms(3) by simp
  finally show ?thesis by simp
qed

lemma local_decoderD:
  assumes "local_decoder decode" and "decode data offset = Inr (v, offset')"
  shows "offset \<le> offset'"
    and "offset2 + (offset' - offset) \<le> length data2 \<Longrightarrow>
         take (offset' - offset) (drop offset2 data2) =
           take (offset' - offset) (drop offset data) \<Longrightarrow>
         decode data2 offset2 = Inr (v, offset2 + (offset' - offset))"
  using assms unfolding local_decoder_def by blast+


lemma dispatch_frame_payload:
  assumes loc: "local_catalogue cat"
    and fe: "frame_event cat (kind, channel, payload) = Some ev"
    and al: "channel \<in> allocated chs"
    and pay: "take (length payload) (drop q d) = payload"
    and len: "q + length payload \<le> length d"
  shows "dispatch_frame cat chs d q kind channel (length payload) =
         Inr (q + length payload, chs\<lparr>inbound := inbound chs @ [ev]\<rparr>)"
proof -
  from fe consider (is_method) "kind = 1" | (is_header) "kind = 2" | (is_body) "kind = 3"
    by (auto simp: frame_event_def split: if_splits)
  then show ?thesis
  proof cases
    case is_method
    with fe have l4: "4 \<le> length payload"
      by (auto simp: frame_event_def split: if_splits)
    with fe is_method obtain decode m where
      tab: "METHODS cat (be_nat (take 4 payload)) = Some decode"
      and dec: "decode payload 4 = Inr (m, length payload)"
      and ev: "ev = Inbound_method channel m"
      by (auto simp: frame_event_def split: if_splits option.splits sum.splits)
    have "take 4 (drop (q + 0) d) = take 4 (drop 0 payload)"
      using l4 by (intro window_slice [OF pay]) simp
    then have u: "unpack_from_I d q = Inr (be_nat (take 4 payload))"
      using l4 len by (simp add: unpack_from_I_def)
    from loc tab have ld: "local_decoder decode"
      by (auto simp: local_catalogue_def)
    have "take (length payload - 4) (drop (q + 4) d) =
          take (length payload - 4) (drop 4 payload)"
      using l4 by (intro window_slice [OF pay]) simp
    with local_decoderD(2) [OF ld dec, of "q + 4" d] l4 len
    have "decode d (q + 4) = Inr (m, q + 4 + (length payload - 4))"
      by simp
    with l4 have "decode d (q + 4) = Inr (m, q + length payload)"
      by simp
    with u tab al show ?thesis
      by (simp add: dispatch_frame_def deliver_def is_method ev)
  next
    case is_header
    with fe have l12: "12 \<le> length payload"
      by (auto simp: frame_event_def split: if_splits)
    with fe is_header obtain decode props where
      tab: "PROPS cat (be_nat (take 2 payload)) = Some decode"
      and dec: "decode payload 12 = Inr (props, length payload)"
      and ev: "ev = Inbound_props channel (be_nat (take 8 (drop 4 payload))) props"
      by (auto simp: frame_event_def split: if_splits option.splits sum.splits)
    have "take 2 (drop (q + 0) d) = take 2 (drop 0 payload)"
      using l12 by (intro window_slice [OF pay]) simp
    moreover have "take 8 (drop (q + 4) d) = take 8 (drop 4 payload)"
      using l12 by (intro window_slice [OF pay]) simp
    ultimately have u: "unpack_from_HxxQ d q =
        Inr (be_nat (take 2 payload), be_nat (take 8 (drop 4 payload)))"
      using l12 len by (simp add: unpack_from_HxxQ_def)
    from loc tab have ld: "local_decoder decode"
      by (auto simp: local_catalogue_def)
    have "take (length payload - 12) (drop (q + 12) d) =
          take (length payload - 12) (drop 12 payload)"
      using l12 by (intro window_slice [OF pay]) simp
    with local_decoderD(2) [OF ld dec, of "q + 12" d] l12 len
    have "decode d (q + 12) = Inr (props, q + 12 + (length payload - 12))"
      by simp
    with l12 have "decode d (q + 12) = Inr (props, q + length payload)"
      by simp
    with u tab al show ?thesis
      by (simp add: dispatch_frame_def deliver_def is_header ev)
  next
    case is_body
    with fe have ev: "ev = Inbound_body channel payload"
      by (simp add: frame_event_def)
    from pay al show ?thesis
      by (simp add: dispatch_frame_def deliver_def is_body ev)
  qed
qed


lemma dispatch_frame_extract:
  assumes loc: "local_catalogue cat"
    and ok: "dispatch_frame cat chs d q kind channel ps = Inr (q + ps, chs')"
    and len: "q + ps \<le> length d"
  shows "\<exists>ev. frame_event cat (kind, channel, take ps (drop q d)) = Some ev \<and>
              channel \<in> allocated chs \<and> chs' = chs\<lparr>inbound := inbound chs @ [ev]\<rparr>"
proof -
  define payload where "payload = take ps (drop q d)"
  have lp: "length payload = ps"
    using len by (simp add: payload_def)
  have pay: "take (length payload) (drop q d) = payload"
    by (simp add: lp) (simp add: payload_def)
  from ok consider (is_method) "kind = 1" | (is_header) "kind = 2" | (is_body) "kind = 3"
    by (auto simp: dispatch_frame_def split: if_splits)
  then show ?thesis
  proof cases
    case is_method
    with ok obtain decode m where
      u: "unpack_from_I d q = Inr (be_nat (take 4 (drop q d)))"
      and tab: "METHODS cat (be_nat (take 4 (drop q d))) = Some decode"
      and dec: "decode d (q + 4) = Inr (m, q + ps)"
      and dl: "deliver chs channel (Inbound_method channel m) = Inr chs'"
      by (auto simp: dispatch_frame_def unpack_from_I_def
               split: if_splits option.splits sum.splits)
    from loc tab have ld: "local_decoder decode"
      by (auto simp: local_catalogue_def)
    from local_decoderD(1) [OF ld dec] have l4: "4 \<le> ps" by simp
    have t4: "take 4 (drop q d) = take 4 payload"
      using window_slice [OF pay, of 0 4] l4 lp by simp
    have "take (ps - 4) (drop (q + 4) d) = take (ps - 4) (drop 4 payload)"
      using l4 lp by (intro window_slice [OF pay]) simp
    with local_decoderD(2) [OF ld dec, of 4 payload] l4 lp
    have "decode payload 4 = Inr (m, 4 + (ps - 4))"
      by simp
    with l4 lp have "decode payload 4 = Inr (m, length payload)"
      by simp
    with tab t4 l4 lp have "frame_event cat (kind, channel, payload) =
        Some (Inbound_method channel m)"
      by (simp add: frame_event_def is_method)
    with dl show ?thesis
      by (auto simp: deliver_def payload_def split: if_splits)
  next
    case is_header
    with ok obtain decode props where
      u: "unpack_from_HxxQ d q =
            Inr (be_nat (take 2 (drop q d)), be_nat (take 8 (drop (q + 4) d)))"
      and tab: "PROPS cat (be_nat (take 2 (drop q d))) = Some decode"
      and dec: "decode d (q + 12) = Inr (props, q + ps)"
      and dl: "deliver chs channel
                 (Inbound_props channel (be_nat (take 8 (drop (q + 4) d))) props) = Inr chs'"
      by (auto simp: dispatch_frame_def unpack_from_HxxQ_def
               split: if_splits option.splits sum.splits)
    from loc tab have ld: "local_decoder decode"
      by (auto simp: local_catalogue_def)
    from local_decoderD(1) [OF ld dec] have l12: "12 \<le> ps" by simp
    have t2: "take 2 (drop q d) = take 2 payload"
      using window_slice [OF pay, of 0 2] l12 lp by simp
    have t8: "take 8 (drop (q + 4) d) = take 8 (drop 4 payload)"
      using l12 lp by (intro window_slice [OF pay]) simp
    have "take (ps - 12) (drop (q + 12) d) = take (ps - 12) (drop 12 payload)"
      using l12 lp by (intro window_slice [OF pay]) simp
    with local_decoderD(2) [OF ld dec, of 12 payload] l12 lp
    have "decode payload 12 = Inr (props, 12 + (ps - 12))"
      by simp
    with l12 lp have "decode payload 12 = Inr (props, length payload)"
      by simp
    with tab t2 l12 lp have "frame_event cat (kind, channel, payload) =
        Some (Inbound_props channel (be_nat (take 8 (drop 4 payload))) props)"
      by (simp add: frame_event_def is_header)
    with dl t8 show ?thesis
      by (auto simp: deliver_def payload_def split: if_splits)
  next
    case is_body
    with ok have dl: "deliver chs channel (Inbound_body channel payload) = Inr chs'"
      by (auto simp: dispatch_frame_def payload_def Let_def split: sum.splits)
    have "frame_event cat (kind, channel, payload) = Some (Inbound_body channel payload)"
      by (simp add: frame_event_def is_body)
    with dl show ?thesis
      by (auto simp: deliver_def payload_def split: if_splits)
  qed
qed


lemma handle_read_frame:
  assumes loc: "local_catalogue cat"
    and fe: "frame_event cat (kind, channel, payload) = Some ev"
    and al: "channel \<in> allocated chs"
    and hdr: "unpack_from_BHI d offset = Inr (kind, channel, length payload)"
    and mark: "d ! (offset + 7 + length payload) = 0xCE"
    and pay: "take (length payload) (drop (offset + 7) d) = payload"
    and len: "offset + 8 + length payload \<le> length d"
  shows "handle_read cat chs d offset =
         Inr (offset + 8 + length payload, 8, chs\<lparr>inbound := inbound chs @ [ev]\<rparr>)"
proof -
  have "dispatch_frame cat chs d (offset + 7) kind channel (length payload) =
         Inr (offset + 7 + length payload, chs\<lparr>inbound := inbound chs @ [ev]\<rparr>)"
    using len by (intro dispatch_frame_payload [OF loc fe al pay]) simp
  with hdr mark len show ?thesis
    by (simp add: handle_read_def Let_def)
qed

lemma handle_read_decoded:
  assumes loc: "local_catalogue cat"
    and ok: "handle_read cat chs d offset = Inr (offset', need, chs')"
    and moved: "offset' \<noteq> offset"
  obtains kind channel payload ev where
    "unpack_from_BHI d offset = Inr (kind, channel, length payload)"
    "d ! (offset + 7 + length payload) = 0xCE"
    "payload = take (length payload) (drop (offset + 7) d)"
    "offset + 8 + length payload \<le> length d"
    "offset' = offset + 8 + length payload" "need = 8"
    "frame_event cat (kind, channel, payload) = Some ev"
    "channel \<in> allocated chs"
    "chs' = chs\<lparr>inbound := inbound chs @ [ev]\<rparr>"
proof -
  from ok moved obtain kind channel ps where
    hdr: "unpack_from_BHI d offset = Inr (kind, channel, ps)"
    and len: "offset + 8 + ps \<le> length d"
    and mark: "d ! (offset + 7 + ps) = 0xCE"
    and dis: "dispatch_frame cat chs d (offset + 7) kind channel ps = Inr (offset + 7 + ps, chs')"
    and res: "offset' = offset + 8 + ps" "need = 8"
    by (auto simp: handle_read_def Let_def split: if_splits sum.splits prod.splits)
  from len have len7: "offset + 7 + ps \<le> length d" by simp
  from dispatch_frame_extract [OF loc dis len7] obtain ev where
    ev: "frame_event cat (kind, channel, take ps (drop (offset + 7) d)) = Some ev"
      "channel \<in> allocated chs" "chs' = chs\<lparr>inbound := inbound chs @ [ev]\<rparr>"
    by blast
  define payload where "payload = take ps (drop (offset + 7) d)"
  have lp: "length payload = ps"
    using len by (simp add: payload_def)
  show thesis
  proof (rule that [of kind channel payload ev])
    show "payload = take (length payload) (drop (offset + 7) d)"
      by (simp add: lp) (simp add: payload_def)
  qed (use hdr len mark res ev in \<open>simp_all add: lp\<close>, simp_all add: payload_def)
qed

lemma handle_read_window:
  assumes loc: "local_catalogue cat"
    and ok: "handle_read cat chs d1 o1 = Inr (o1', need, chs')"
    and moved: "o1' \<noteq> o1"
    and win: "take (o1' - o1) (drop o2 d2) = take (o1' - o1) (drop o1 d1)"
  shows "handle_read cat chs d2 o2 = Inr (o2 + (o1' - o1), need, chs')"
proof -
  from handle_read_decoded [OF loc ok moved] obtain kind channel payload ev where
    hdr: "unpack_from_BHI d1 o1 = Inr (kind, channel, length payload)"
    and mark: "d1 ! (o1 + 7 + length payload) = 0xCE"
    and pay: "payload = take (length payload) (drop (o1 + 7) d1)"
    and len: "o1 + 8 + length payload \<le> length d1"
    and res: "o1' = o1 + 8 + length payload" "need = 8"
    and fe: "frame_event cat (kind, channel, payload) = Some ev"
    and al: "channel \<in> allocated chs"
    and chs': "chs' = chs\<lparr>inbound := inbound chs @ [ev]\<rparr>"
    by blast
  define w where "w = 8 + length payload"
  define win where "win = take w (drop o1 d1)"
  have w1: "take w (drop o1 d1) = win"
    by (simp add: win_def)
  have w2: "take w (drop o2 d2) = win"
    using win by (simp add: win_def w_def res)
  have lw: "length win = w"
    using len by (simp add: win_def w_def)
  have len2: "o2 + w \<le> length d2"
  proof -
    have "length (take w (drop o2 d2)) = w"
      using w2 lw by simp
    then have "w \<le> length d2 - o2"
      by simp
    moreover have "8 \<le> w"
      by (simp add: w_def)
    ultimately show ?thesis by arith
  qed
  have slice: "take n (drop (o2 + k) d2) = take n (drop (o1 + k) d1)" if "k + n \<le> w" for k n
    using window_slice [OF w1 that] window_slice [OF w2 that] by simp
  have hdr2: "unpack_from_BHI d2 o2 = Inr (kind, channel, length payload)"
    using hdr len len2 slice [of 0 1] slice [of 1 2] slice [of 3 4]
    by (simp add: unpack_from_BHI_def w_def)
  have "d2 ! (o2 + (7 + length payload)) = win ! (7 + length payload)"
    using len2 by (intro window_nth [OF w2]) (simp_all add: w_def)
  moreover have "d1 ! (o1 + (7 + length payload)) = win ! (7 + length payload)"
    using len by (intro window_nth [OF w1]) (simp_all add: w_def)
  ultimately have mark2: "d2 ! (o2 + 7 + length payload) = 0xCE"
    using mark by (simp add: add.assoc)
  have pay2: "take (length payload) (drop (o2 + 7) d2) = payload"
    using slice [of 7 "length payload"] pay by (simp add: w_def)
  have len2': "o2 + 8 + length payload \<le> length d2"
    using len2 by (simp add: w_def)
  from handle_read_frame [OF loc fe al hdr2 mark2 pay2 len2']
  show ?thesis
    by (simp add: res chs')
qed


lemma handle_read_short:
  "length d < offset + 8 \<Longrightarrow> handle_read cat chs d offset = Inr (offset, 8, chs)"
  by (simp add: handle_read_def)

lemma handle_read_incomplete:
  "offset + 8 \<le> length d \<Longrightarrow> length d < offset + 8 + declared_payload_size d offset \<Longrightarrow>
   handle_read cat chs d offset = Inr (offset, 8 + declared_payload_size d offset, chs)"
  by (simp add: handle_read_def unpack_from_BHI_def declared_payload_size_def Let_def)

lemma declared_payload_size_shift:
  "declared_payload_size (pre @ d) (length pre + offset) = declared_payload_size d offset"
  by (simp add: declared_payload_size_def)

lemma handle_read_shift:
  assumes loc: "local_catalogue cat"
    and big: "handle_read cat chs (pre @ d) (length pre + offset) = Inr (o2, n2, chs2)"
  shows "length pre + offset \<le> o2 \<and>
         handle_read cat chs d offset = Inr (o2 - length pre, n2, chs2)"
proof -
  from handle_read_Inr [OF big]
  consider (short) "length (pre @ d) < length pre + offset + 8" "o2 = length pre + offset"
      "n2 = 8" "chs2 = chs"
    | (incomplete) "length pre + offset + 8 \<le> length (pre @ d)"
      "length (pre @ d) < length pre + offset + 8 + declared_payload_size d offset"
      "o2 = length pre + offset" "n2 = 8 + declared_payload_size d offset" "chs2 = chs"
    | (decoded) "o2 = length pre + offset + 8 + declared_payload_size d offset"
    by (auto simp: declared_payload_size_shift)
  then show ?thesis
  proof cases
    case short
    then show ?thesis by (simp add: handle_read_short)
  next
    case incomplete
    then show ?thesis by (simp add: handle_read_incomplete)
  next
    case decoded
    then have moved: "o2 \<noteq> length pre + offset" by simp
    have "take (o2 - (length pre + offset)) (drop offset d) =
          take (o2 - (length pre + offset)) (drop (length pre + offset) (pre @ d))"
      by simp
    from handle_read_window [OF loc big moved this] decoded
    show ?thesis by simp
  qed
qed

lemma handle_read_prefix:
  assumes loc: "local_catalogue cat"
    and big: "handle_read cat chs (d @ e) offset = Inr (o2, n2, chs2)"
    and hdr: "offset + 8 \<le> length d"
  shows "handle_read cat chs d offset =
         (if offset + 8 + declared_payload_size d offset \<le> length d then Inr (o2, n2, chs2)
          else Inr (offset, 8 + declared_payload_size d offset, chs))"
proof (cases "offset + 8 + declared_payload_size d offset \<le> length d")
  case False
  with hdr show ?thesis by (simp add: handle_read_incomplete)
next
  case True
  have ps: "declared_payload_size (d @ e) offset = declared_payload_size d offset"
    using hdr by (simp add: declared_payload_size_append)
  from handle_read_Inr [OF big] True hdr
  have o2: "o2 = offset + 8 + declared_payload_size d offset"
    by (auto simp: ps)
  then have moved: "o2 \<noteq> offset" by simp
  have "take (o2 - offset) (drop offset d) = take (o2 - offset) (drop offset (d @ e))"
    using True hdr by (simp add: o2)
  from handle_read_window [OF loc big moved this] True
  show ?thesis by (simp add: o2)
qed

subsection \<open>The decode loop on a longer or shifted buffer\<close>

lemma read_loop_stop:
  "\<not> offset + need \<le> length d \<Longrightarrow> read_loop cat d offset need chs = Inr (offset, need, chs)"
  by (subst read_loop.simps) simp

lemma read_loop_step:
  "offset + need \<le> length d \<Longrightarrow> handle_read cat chs d offset = Inr (o', n', chs') \<Longrightarrow>
   read_loop cat d offset need chs = read_loop cat d o' n' chs'"
  by (subst read_loop.simps) simp

lemma read_loop_Inr_step:
  assumes "read_loop cat d offset need chs = Inr r" and "offset + need \<le> length d"
  obtains o' n' chs' where "handle_read cat chs d offset = Inr (o', n', chs')"
    "read_loop cat d o' n' chs' = Inr r"
  using assms
  by (subst (asm) read_loop.simps) (auto split: sum.splits prod.splits)

lemma read_loop_shift:
  "local_catalogue cat \<Longrightarrow>
   read_loop cat (pre @ d) (length pre + offset) need chs = Inr (ob, nb, chsb) \<Longrightarrow>
   length pre + offset \<le> ob \<and>
   read_loop cat d offset need chs = Inr (ob - length pre, nb, chsb)"
proof (induction cat d offset need chs rule: read_loop.induct)
  case (1 cat d offset need chs)
  note loc = "1.prems"(1) and big = "1.prems"(2)
  show ?case
  proof (cases "offset + need \<le> length d")
    case False
    then have "\<not> length pre + offset + need \<le> length (pre @ d)" by simp
    from read_loop_stop [OF this] big False show ?thesis
      by (auto simp: read_loop_stop)
  next
    case guard: True
    then have gb: "length pre + offset + need \<le> length (pre @ d)" by simp
    from read_loop_Inr_step [OF big gb] obtain o2 n2 chs2 where
      hb: "handle_read cat chs (pre @ d) (length pre + offset) = Inr (o2, n2, chs2)"
      and rb: "read_loop cat (pre @ d) o2 n2 chs2 = Inr (ob, nb, chsb)"
      by blast
    from handle_read_shift [OF loc hb]
    have le: "length pre + offset \<le> o2"
      and hs: "handle_read cat chs d offset = Inr (o2 - length pre, n2, chs2)"
      by simp_all
    from le rb have "read_loop cat (pre @ d) (length pre + (o2 - length pre)) n2 chs2 =
        Inr (ob, nb, chsb)"
      by simp
    from "1.IH" [OF guard hs refl refl loc this] le
    have "length pre + offset \<le> ob"
      "read_loop cat d (o2 - length pre) n2 chs2 = Inr (ob - length pre, nb, chsb)"
      by simp_all
    with read_loop_step [OF guard hs] show ?thesis by simp
  qed
qed


lemma read_loop_prefix:
  "local_catalogue cat \<Longrightarrow> need = 8 \<Longrightarrow> read_loop cat (d @ e) offset 8 chs = Inr r \<Longrightarrow>
   \<exists>o1 n1 chs1. read_loop cat d offset need chs = Inr (o1, n1, chs1) \<and>
                 read_loop cat (d @ e) o1 8 chs1 = Inr r"
proof (induction cat d offset need chs rule: read_loop.induct)
  case (1 cat d offset need chs)
  note loc = "1.prems"(1) and need = "1.prems"(2) and big = "1.prems"(3)
  show ?case
  proof (cases "offset + need \<le> length d")
    case False
    from read_loop_stop [OF this, of cat chs] big show ?thesis
      by (simp add: need)
  next
    case guard: True
    with need have hdr: "offset + 8 \<le> length d" by simp
    then have gb: "offset + 8 \<le> length (d @ e)" by simp
    from read_loop_Inr_step [OF big gb] obtain o2 n2 chs2 where
      hb: "handle_read cat chs (d @ e) offset = Inr (o2, n2, chs2)"
      and rb: "read_loop cat (d @ e) o2 n2 chs2 = Inr r"
      by blast
    note hp = handle_read_prefix [OF loc hb hdr]
    show ?thesis
    proof (cases "offset + 8 + declared_payload_size d offset \<le> length d")
      case True
      with hp have hs: "handle_read cat chs d offset = Inr (o2, n2, chs2)" by simp
      from handle_read_Inr [OF hs] True hdr have n2: "n2 = 8" by auto
      from rb n2 have "read_loop cat (d @ e) o2 8 chs2 = Inr r" by simp
      from "1.IH" [OF guard hs refl refl loc n2 this] read_loop_step [OF guard hs]
      show ?thesis by simp
    next
      case False
      with hp have hs: "handle_read cat chs d offset =
          Inr (offset, 8 + declared_payload_size d offset, chs)"
        by simp
      from False have "\<not> offset + (8 + declared_payload_size d offset) \<le> length d"
        by simp
      from read_loop_stop [OF this, of cat chs] read_loop_step [OF guard hs]
      have "read_loop cat d offset need chs =
          Inr (offset, 8 + declared_payload_size d offset, chs)"
        by simp
      with big show ?thesis by simp
    qed
  qed
qed

lemma read_loop_need:
  assumes hdr: "offset + 8 \<le> length d" and need: "need = 8 + declared_payload_size d offset"
  shows "(read_loop cat d offset need chs = Inr r) = (read_loop cat d offset 8 chs = Inr r)"
proof (cases "offset + need \<le> length d")
  case True
  have "read_loop cat d offset need chs =
        (case handle_read cat chs d offset of
           Inl (e, chs') \<Rightarrow> Inl (e, need, chs')
         | Inr (offset', need', chs') \<Rightarrow> read_loop cat d offset' need' chs')"
    using True by (subst read_loop.simps) simp
  moreover have "read_loop cat d offset 8 chs =
        (case handle_read cat chs d offset of
           Inl (e, chs') \<Rightarrow> Inl (e, 8, chs')
         | Inr (offset', need', chs') \<Rightarrow> read_loop cat d offset' need' chs')"
    using hdr by (subst read_loop.simps) simp
  ultimately show ?thesis
    by (auto split: sum.splits prod.splits)
next
  case False
  with need have inc: "length d < offset + 8 + declared_payload_size d offset" by simp
  have g8: "offset + 8 \<le> length d" using hdr .
  from read_loop_step [OF g8 handle_read_incomplete [OF hdr inc, of cat chs]]
    read_loop_stop [OF False, of cat chs]
  show ?thesis by (simp add: need)
qed

subsection \<open>Splitting a read in two\<close>

lemma on_read_feed:
  assumes s: "sd c = Some s" and r: "r \<noteq> []" and inv: "cursor_inv c"
  shows "(on_read cat done c (Recv r) = Inr c') =
         (\<exists>offset need chs.
            read_loop cat (recv_buf c @ r) 0 8 (channels c) = Inr (offset, need, chs) \<and>
            c' = c\<lparr>recv_buf := drop offset (recv_buf c @ r), recv_need := need,
                   channels := chs\<rparr>)"
proof -
  define data where "data = recv_buf c @ r"
  have c1: "(if r = [] then shutdown done c ConnectionBroken else Inr c) = Inr c"
    using r by simp
  note form = on_read_Recv [OF s c1, of cat, folded data_def]
  have loop: "(on_read cat done c (Recv r) = Inr c') =
         (\<exists>offset need chs.
            read_loop cat data 0 (recv_need c) (channels c) = Inr (offset, need, chs) \<and>
            c' = c\<lparr>recv_buf := drop offset data, recv_need := need, channels := chs\<rparr>)"
  proof (cases "recv_need c \<le> length data")
    case True
    with form show ?thesis
      by (auto split: sum.splits prod.splits)
  next
    case False
    then have "\<not> 0 + recv_need c \<le> length data" by simp
    from read_loop_stop [OF this, of cat "channels c"] False form
    show ?thesis by auto
  qed
  from inv have "recv_need c = 8 \<or>
      (0 + 8 \<le> length data \<and> recv_need c = 8 + declared_payload_size data 0)"
    by (auto simp: cursor_inv_def data_def declared_payload_size_append)
  then have "(read_loop cat data 0 (recv_need c) (channels c) = Inr x) =
             (read_loop cat data 0 8 (channels c) = Inr x)" for x
    using read_loop_need [of 0 data "recv_need c" cat "channels c" x] by auto
  with loop show ?thesis
    by (simp add: data_def)
qed


lemma on_read_sd:
  assumes "on_read cat done c (Recv r) = Inr c'" and "r \<noteq> []"
  shows "sd c' = sd c"
proof -
  from assms(1) on_read_Inr_Recv [of cat "done" c r c'] obtain s where s: "sd c = Some s"
    by auto
  have c1: "(if r = [] then shutdown done c ConnectionBroken else Inr c) = Inr c"
    using assms(2) by simp
  from on_read_Recv [OF s c1, of cat] assms(1) show ?thesis
    by (auto split: if_splits sum.splits prod.splits)
qed

lemma on_read_split:
  assumes loc: "local_catalogue cat" and s: "sd c = Some s" and inv: "cursor_inv c"
    and r1: "r1 \<noteq> []" and r2: "r2 \<noteq> []"
    and whole: "on_read cat done c (Recv (r1 @ r2)) = Inr c2"
  shows "\<exists>c1. on_read cat done c (Recv r1) = Inr c1 \<and> cursor_inv c1 \<and> sd c1 = Some s \<and>
              on_read cat done c1 (Recv r2) = Inr c2"
proof -
  define d1 where "d1 = recv_buf c @ r1"
  have d12: "recv_buf c @ r1 @ r2 = d1 @ r2"
    by (simp add: d1_def)
  from r1 have r12: "r1 @ r2 \<noteq> []" by simp
  from whole on_read_feed [OF s r12 inv, of cat "done" c2] obtain o2 n2 chs2 where
    big: "read_loop cat (d1 @ r2) 0 8 (channels c) = Inr (o2, n2, chs2)"
    and c2: "c2 = c\<lparr>recv_buf := drop o2 (d1 @ r2), recv_need := n2, channels := chs2\<rparr>"
    unfolding d12 by auto
  from read_loop_prefix [OF loc refl big] obtain o1 n1 chs1 where
    small: "read_loop cat d1 0 8 (channels c) = Inr (o1, n1, chs1)"
    and rest: "read_loop cat (d1 @ r2) o1 8 chs1 = Inr (o2, n2, chs2)"
    by blast
  from read_loop_post [OF small] have o1: "o1 \<le> length d1"
    by simp
  define c1 where "c1 = c\<lparr>recv_buf := drop o1 d1, recv_need := n1, channels := chs1\<rparr>"
  have first: "on_read cat done c (Recv r1) = Inr c1"
    using on_read_feed [OF s r1 inv, of cat "done" c1] small
    by (simp add: d1_def c1_def)
  have inv1: "cursor_inv c1"
    using on_read_cursor_inv [OF inv first] .
  have s1: "sd c1 = Some s"
    using s by (simp add: c1_def)
  have split: "d1 @ r2 = take o1 d1 @ (drop o1 d1 @ r2)"
    by (simp only: append_assoc [symmetric] append_take_drop_id)
  have lt: "length (take o1 d1) = o1"
    using o1 by simp
  have "read_loop cat (take o1 d1 @ (drop o1 d1 @ r2)) (length (take o1 d1) + 0) 8 chs1 =
          Inr (o2, n2, chs2)"
    using rest unfolding lt split [symmetric] by simp
  from read_loop_shift [OF loc this]
  have le: "o1 \<le> o2"
    and tail: "read_loop cat (drop o1 d1 @ r2) 0 8 chs1 = Inr (o2 - o1, n2, chs2)"
    unfolding lt by simp_all
  have "drop (o2 - o1) (drop o1 d1 @ r2) = drop o2 (d1 @ r2)"
  proof -
    have e: "drop o1 d1 @ r2 = drop o1 (d1 @ r2)"
      using o1 by simp
    have "drop (o2 - o1) (drop o1 (d1 @ r2)) = drop (o2 - o1 + o1) (d1 @ r2)"
      by (simp only: drop_drop)
    moreover have "o2 - o1 + o1 = o2"
      using le by simp
    ultimately show ?thesis
      by (simp only: e)
  qed
  moreover have "recv_buf c1 = drop o1 d1" "channels c1 = chs1"
    by (simp_all add: c1_def)
  ultimately have "on_read cat done c1 (Recv r2) = Inr c2"
    using on_read_feed [OF s1 r2 inv1, of cat "done" c2] tail
    by (simp add: c2) (simp add: c1_def)
  with first inv1 s1 show ?thesis by blast
qed

lemma on_reads_chunks:
  assumes loc: "local_catalogue cat"
  shows "sd c = Some s \<Longrightarrow> cursor_inv c \<Longrightarrow> chunks \<noteq> [] \<Longrightarrow> [] \<notin> set chunks \<Longrightarrow>
         on_read cat done c (Recv (concat chunks)) = Inr c' \<Longrightarrow>
         on_reads cat done c (map Recv chunks) = Inr c'"
proof (induction chunks arbitrary: c)
  case Nil
  then show ?case by simp
next
  case (Cons r rest)
  show ?case
  proof (cases "rest = []")
    case True
    with Cons.prems show ?thesis by simp
  next
    case False
    from Cons.prems(4) have r: "r \<noteq> []" and ne: "[] \<notin> set rest" by auto
    from False ne have crest: "concat rest \<noteq> []"
      by (cases rest) auto
    from Cons.prems(5) have "on_read cat done c (Recv (r @ concat rest)) = Inr c'" by simp
    from on_read_split [OF loc Cons.prems(1,2) r crest this] obtain c1 where
      c1: "on_read cat done c (Recv r) = Inr c1" "cursor_inv c1" "sd c1 = Some s"
        "on_read cat done c1 (Recv (concat rest)) = Inr c'"
      by blast
    from Cons.IH [OF c1(3) c1(2) False ne c1(4)] c1(1) show ?thesis
      by simp
  qed
qed

subsection \<open>Framing round trip\<close>

lemma well_formed_kind:
  "well_formed cat ids (kind, channel, payload) \<Longrightarrow> kind = 1 \<or> kind = 2 \<or> kind = 3"
  by (auto simp: well_formed_def frame_event_def split: if_splits)

lemma encode_tuples_wire:
  "\<forall>f \<in> set fs. well_formed cat ids f \<Longrightarrow>
   encode_tuples fs =
     Inr (concat (map (\<lambda>(kind, channel, payload). wire_frame kind channel payload) fs))"
proof (induction fs)
  case Nil
  show ?case by simp
next
  case (Cons f fs)
  obtain kind channel payload where f: "f = (kind, channel, payload)" by (cases f)
  from Cons.prems f have wf: "well_formed cat ids (kind, channel, payload)" by simp
  then have "kind < 2 ^ 8" "channel < 2 ^ 16" "length payload < 2 ^ 32"
    using well_formed_kind [OF wf] by (auto simp: well_formed_def)
  then have "frame_bytes (int kind) (int channel) payload =
      Inr (wire_frame kind channel payload)"
    by (rule frame_bytes_wire)
  moreover have "encode_tuples fs =
     Inr (concat (map (\<lambda>(kind, channel, payload). wire_frame kind channel payload) fs))"
    using Cons by simp
  ultimately show ?case by (simp add: f)
qed

lemma frame_events_Cons:
  "frame_event cat f = Some ev \<Longrightarrow> frame_events cat (f # fs) = ev # frame_events cat fs"
  by (simp add: frame_events_def)

lemma frame_events_well_formed:
  "\<forall>f \<in> set fs. well_formed cat ids f \<Longrightarrow>
   map Some (frame_events cat fs) = map (frame_event cat) fs"
proof (induction fs)
  case Nil
  show ?case by (simp add: frame_events_def)
next
  case (Cons f fs)
  from Cons.prems obtain ev where "frame_event cat f = Some ev"
    by (cases f) (auto simp: well_formed_def)
  with Cons show ?case by (simp add: frame_events_Cons)
qed

lemma handle_read_wire_frame:
  assumes loc: "local_catalogue cat"
    and wf: "well_formed cat (allocated chs) (kind, channel, payload)"
    and fe: "frame_event cat (kind, channel, payload) = Some ev"
  shows "handle_read cat chs (pre @ wire_frame kind channel payload @ post) (length pre) =
         Inr (length pre + 8 + length payload, 8, chs\<lparr>inbound := inbound chs @ [ev]\<rparr>)"
proof -
  from wf well_formed_kind [OF wf]
  have r: "kind < 2 ^ 8" "channel < 2 ^ 16" "length payload < 2 ^ 32"
    and al: "channel \<in> allocated chs"
    by (auto simp: well_formed_def)
  define d where "d = pre @ wire_frame kind channel payload @ post"
  have hdr: "unpack_from_BHI d (length pre) = Inr (kind, channel, length payload)"
    unfolding d_def using r by (rule unpack_wire_frame)
  have mark: "d ! (length pre + 7 + length payload) = 0xCE"
    by (simp add: d_def wire_frame_def nth_append)
  have pay: "take (length payload) (drop (length pre + 7) d) = payload"
    by (simp add: d_def wire_frame_def)
  have len: "length pre + 8 + length payload \<le> length d"
    by (simp add: d_def wire_frame_def)
  from handle_read_frame [OF loc fe al hdr mark pay len] show ?thesis
    by (simp add: d_def)
qed

lemma read_loop_encoded:
  "local_catalogue cat \<Longrightarrow> \<forall>f \<in> set fs. well_formed cat (allocated chs) f \<Longrightarrow>
   read_loop cat
     (pre @ concat (map (\<lambda>(kind, channel, payload). wire_frame kind channel payload) fs))
     (length pre) 8 chs =
   Inr (length pre +
        length (concat (map (\<lambda>(kind, channel, payload). wire_frame kind channel payload) fs)),
        8, chs\<lparr>inbound := inbound chs @ frame_events cat fs\<rparr>)"
proof (induction fs arbitrary: pre chs)
  case Nil
  have "\<not> length pre + 8 \<le> length pre" by simp
  from read_loop_stop [OF this, of cat chs] show ?case
    by (simp add: frame_events_def)
next
  case (Cons f fs)
  note loc = Cons.prems(1)
  obtain kind channel payload where f: "f = (kind, channel, payload)" by (cases f)
  from Cons.prems(2) f have wf: "well_formed cat (allocated chs) (kind, channel, payload)"
    by simp
  then obtain ev where fe: "frame_event cat (kind, channel, payload) = Some ev"
    by (auto simp: well_formed_def)
  define rest where
    "rest = concat (map (\<lambda>(kind, channel, payload). wire_frame kind channel payload) fs)"
  define chs1 where "chs1 = chs\<lparr>inbound := inbound chs @ [ev]\<rparr>"
  define w where "w = wire_frame kind channel payload"
  have lw: "length w = 8 + length payload"
    by (simp add: w_def wire_frame_def)
  have hr: "handle_read cat chs (pre @ w @ rest) (length pre) =
            Inr (length pre + 8 + length payload, 8, chs1)"
    unfolding w_def chs1_def by (rule handle_read_wire_frame [OF loc wf fe])
  have guard: "length pre + 8 \<le> length (pre @ w @ rest)"
    by (simp add: lw)
  have "\<forall>f \<in> set fs. well_formed cat (allocated chs1) f"
    using Cons.prems(2) by (simp add: chs1_def)
  from Cons.IH [OF loc this, of "pre @ w"]
  have "read_loop cat ((pre @ w) @ rest) (length (pre @ w)) 8 chs1 =
        Inr (length (pre @ w) + length rest, 8,
             chs1\<lparr>inbound := inbound chs1 @ frame_events cat fs\<rparr>)"
    by (simp only: rest_def)
  then have "read_loop cat (pre @ w @ rest) (length pre + 8 + length payload) 8 chs1 =
        Inr (length pre + length (w @ rest), 8,
             chs\<lparr>inbound := inbound chs @ frame_events cat (f # fs)\<rparr>)"
    by (simp add: lw chs1_def f frame_events_Cons [OF fe] add.assoc)
  with read_loop_step [OF guard hr] show ?case
    by (simp add: f rest_def w_def)
qed

lemma local_decode_octet: "local_decoder decode_octet"
  unfolding local_decoder_def
proof (intro allI impI conjI)
  fix data offset v offset'
  assume a: "decode_octet data offset = Inr (v, offset')"
  then show "offset \<le> offset'"
    by (auto simp: decode_octet_def split: if_splits)
next
  fix data offset v offset' data2 offset2
  assume a: "decode_octet data offset = Inr (v, offset')"
    and b: "offset2 + (offset' - offset) \<le> length data2 \<and>
            take (offset' - offset) (drop offset2 data2) =
              take (offset' - offset) (drop offset data)"
  from a have o: "offset < length data" "v = data ! offset" "offset' = offset + 1"
    by (auto simp: decode_octet_def split: if_splits)
  with b have l: "offset2 < length data2"
    and t: "take 1 (drop offset2 data2) = take 1 (drop offset data)"
    by simp_all
  from t o(1) l have "data2 ! offset2 = data ! offset"
    by (simp add: take_Suc_conv_app_nth hd_drop_conv_nth take_Suc)
  with l o show "decode_octet data2 offset2 = Inr (v, offset2 + (offset' - offset))"
    by (simp add: decode_octet_def)
qed

lemma local_example_catalogue: "local_catalogue example_catalogue"
  by (auto simp: local_catalogue_def example_catalogue_def local_decode_octet
           split: if_splits)

text \<open>
  Claim C2, as amended. For every sequence of (kind, channel, payload) tuples with kind 1, 2
  or 3, a channel id below \<open>2 ^ 16\<close> that is allocated in the channel table, a payload
  shorter than \<open>2 ^ 32\<close> and, for kinds 1 and 2, a payload that the catalogue decodes up to
  its end (a known method id, or a class header with a known class id, followed by the
  fields that the decoder reads), the encoder produces the tuples' frames in order, and
  the decode loop on these bytes passes every end-marker check, consumes all the bytes,
  leaves bytes-needed at 8 and dispatches one call per tuple, in order, on the tuple's
  channel: the payload itself for a body frame, what the catalogue decodes from the
  payload for a method or header frame.
\<close>

theorem decode_encoded_frames:
  assumes "local_catalogue cat" and "\<forall>f \<in> set fs. well_formed cat (allocated chs) f"
  shows "encode_tuples fs =
           Inr (concat (map (\<lambda>(kind, channel, payload). wire_frame kind channel payload) fs)) \<and>
         read_loop cat
           (concat (map (\<lambda>(kind, channel, payload). wire_frame kind channel payload) fs))
           0 8 chs =
           Inr (length
                  (concat (map (\<lambda>(kind, channel, payload). wire_frame kind channel payload) fs)),
                8, chs\<lparr>inbound := inbound chs @ frame_events cat fs\<rparr>) \<and>
         map Some (frame_events cat fs) = map (frame_event cat) fs"
  using encode_tuples_wire [OF assms(2)] read_loop_encoded [OF assms, of "[]"]
    frame_events_well_formed [OF assms(2)]
  by simp

theorem decode_encoded_frames_witness:
  "encode_tuples [(1, 1, [0, 0, 0, 10, 42]), (3, 0, [9]),
                  (2, 1, [0, 60, 0, 0, 0, 0, 0, 0, 0, 0, 1, 0, 77])] =
     Inr [1, 0, 1, 0, 0, 0, 5, 0, 0, 0, 10, 42, 0xCE,
          3, 0, 0, 0, 0, 0, 1, 9, 0xCE,
          2, 0, 1, 0, 0, 0, 13, 0, 60, 0, 0, 0, 0, 0, 0, 0, 0, 1, 0, 77, 0xCE] \<and>
   read_loop example_catalogue
     [1, 0, 1, 0, 0, 0, 5, 0, 0, 0, 10, 42, 0xCE,
      3, 0, 0, 0, 0, 0, 1, 9, 0xCE,
      2, 0, 1, 0, 0, 0, 13, 0, 60, 0, 0, 0, 0, 0, 0, 0, 0, 1, 0, 77, 0xCE]
     0 8 (channels example_connection) =
     Inr (43, 8, \<lparr>allocated = {0, 1},
                  inbound = [Inbound_method 1 42, Inbound_body 0 [9],
                             Inbound_props 1 256 77]\<rparr>)"
proof -
  have wf: "\<forall>f \<in> set [(1, 1, [0, 0, 0, 10, 42]), (3, 0, [9]),
                  (2, 1, [0, 60, 0, 0, 0, 0, 0, 0, 0, 0, 1, 0, 77])].
      well_formed example_catalogue (allocated (channels example_connection)) f"
    by (simp add: well_formed_def frame_event_def example_catalogue_def decode_octet_def
          example_connection_def)
  from decode_encoded_frames [OF local_example_catalogue wf] show ?thesis
    by (simp add: wire_frame_def frame_events_def frame_event_def example_catalogue_def
          decode_octet_def example_connection_def)
qed

text \<open>
  The claim as stated takes any payload. A method frame with an empty payload is encoded,
  and its end marker is valid, but \<^verbatim>\<open>_handle_read\<close> raises when it unpacks the method id.
\<close>

theorem empty_method_frame_raises:
  "encode_tuples [(1, 0, [])] = Inr [1, 0, 0, 0, 0, 0, 0, 0xCE] \<and>
   read_loop example_catalogue [1, 0, 0, 0, 0, 0, 0, 0xCE] 0 8 (channels example_connection) =
     Inl (StructError, 8, channels example_connection)"
  by (simp add: frame_bytes_def pack_BHI_def be_bytes_2 be_bytes_4 read_loop.simps
        handle_read_def unpack_from_BHI_def dispatch_frame_def unpack_from_I_def)

subsection \<open>Partial reads\<close>

text \<open>
  Claim C1. On a connection with a socket and a fresh receive cursor, and with a catalogue
  whose decoders are local, let a non-empty sequence of tuples as in C2 be encoded. Then
  delivering the bytes to \<^verbatim>\<open>on_read\<close> in any number of non-empty chunks of any sizes
  leaves the connection exactly as delivering them in one call does: the calls of the
  tuples have been dispatched to the channel table, in order, and the receive buffer is
  empty again.
\<close>

theorem chunked_reads_dispatch_the_same:
  assumes loc: "local_catalogue cat"
    and wf: "\<forall>f \<in> set fs. well_formed cat (allocated (channels c)) f"
    and fs: "fs \<noteq> []"
    and enc: "encode_tuples fs = Inr wire"
    and chunks: "concat chunks = wire" "[] \<notin> set chunks"
    and sock: "sd c \<noteq> None"
    and fresh: "recv_buf c = []" "recv_need c = 8"
  shows "on_reads cat done c (map Recv chunks) = on_read cat done c (Recv wire) \<and>
         on_read cat done c (Recv wire) =
           Inr (c\<lparr>channels := (channels c)\<lparr>inbound :=
                                   inbound (channels c) @ frame_events cat fs\<rparr>\<rparr>)"
proof -
  from sock obtain s where s: "sd c = Some s" by auto
  have inv: "cursor_inv c"
    using fresh by (simp add: cursor_inv_def)
  have wire: "wire =
      concat (map (\<lambda>(kind, channel, payload). wire_frame kind channel payload) fs)"
    using encode_tuples_wire [OF wf] enc by simp
  obtain f fs' where f: "fs = f # fs'"
    using fs by (cases fs) auto
  have "8 \<le> length wire"
    unfolding wire f by (cases f) (simp add: wire_frame_def)
  then have ne: "wire \<noteq> []" by auto
  have loop: "read_loop cat (recv_buf c @ wire) 0 8 (channels c) =
      Inr (length wire, 8,
           (channels c)\<lparr>inbound := inbound (channels c) @ frame_events cat fs\<rparr>)"
    using read_loop_encoded [OF loc wf, of "[]"] by (simp add: fresh wire)
  define c' where "c' =
      c\<lparr>channels := (channels c)\<lparr>inbound := inbound (channels c) @ frame_events cat fs\<rparr>\<rparr>"
  have "c' = c\<lparr>recv_buf := drop (length wire) (recv_buf c @ wire), recv_need := 8,
                 channels := (channels c)\<lparr>inbound :=
                                   inbound (channels c) @ frame_events cat fs\<rparr>\<rparr>"
    using fresh by (cases c) (simp add: c'_def)
  with loop have one: "on_read cat done c (Recv wire) = Inr c'"
    using on_read_feed [OF s ne inv, of cat "done" c'] by blast
  from ne chunks(1) have "chunks \<noteq> []" by auto
  from on_reads_chunks [OF loc s inv this chunks(2)] one chunks(1)
  have "on_reads cat done c (map Recv chunks) = Inr c'"
    by simp
  with one show ?thesis
    by (simp add: c'_def)
qed

theorem chunked_reads_dispatch_the_same_witness:
  "on_reads example_catalogue mark_done example_connection
     (map Recv [[1, 0, 1, 0, 0, 0, 5, 0, 0, 0],
                [10, 42, 0xCE, 3, 0, 0, 0, 0, 0, 1, 9, 0xCE, 2, 0, 1, 0, 0, 0, 13, 0, 60, 0],
                [0],
                [0, 0, 0, 0, 0, 0, 1, 0, 77, 0xCE]]) =
     Inr (example_connection
            \<lparr>channels := \<lparr>allocated = {0, 1},
                           inbound = [Inbound_method 1 42, Inbound_body 0 [9],
                                      Inbound_props 1 256 77]\<rparr>\<rparr>) \<and>
   on_read example_catalogue mark_done example_connection
     (Recv [1, 0, 1, 0, 0, 0, 5, 0, 0, 0, 10, 42, 0xCE,
            3, 0, 0, 0, 0, 0, 1, 9, 0xCE,
            2, 0, 1, 0, 0, 0, 13, 0, 60, 0, 0, 0, 0, 0, 0, 0, 0, 1, 0, 77, 0xCE]) =
     Inr (example_connection
            \<lparr>channels := \<lparr>allocated = {0, 1},
                           inbound = [Inbound_method 1 42, Inbound_body 0 [9],
                                      Inbound_props 1 256 77]\<rparr>\<rparr>)"
proof -
  let ?fs = "[(1, 1, [0, 0, 0, 10, 42]), (3, 0, [9]),
              (2, 1, [0, 60, 0, 0, 0, 0, 0, 0, 0, 0, 1, 0, 77])] :: (nat \<times> nat \<times> bytes) list"
  let ?wire = "[1, 0, 1, 0, 0, 0, 5, 0, 0, 0, 10, 42, 0xCE,
            3, 0, 0, 0, 0, 0, 1, 9, 0xCE,
            2, 0, 1, 0, 0, 0, 13, 0, 60, 0, 0, 0, 0, 0, 0, 0, 0, 1, 0, 77, 0xCE] :: bytes"
  let ?chunks = "[[1, 0, 1, 0, 0, 0, 5, 0, 0, 0],
                [10, 42, 0xCE, 3, 0, 0, 0, 0, 0, 1, 9, 0xCE, 2, 0, 1, 0, 0, 0, 13, 0, 60, 0],
                [0],
                [0, 0, 0, 0, 0, 0, 1, 0, 77, 0xCE]] :: bytes list"
  have wf: "\<forall>f \<in> set ?fs.
      well_formed example_catalogue (allocated (channels example_connection)) f"
    by (simp add: well_formed_def frame_event_def example_catalogue_def decode_octet_def
          example_connection_def)
  have enc: "encode_tuples ?fs = Inr ?wire"
    by (simp add: frame_bytes_def pack_BHI_def be_bytes_2 be_bytes_4)
  have ev: "frame_events example_catalogue ?fs =
      [Inbound_method 1 42, Inbound_body 0 [9], Inbound_props 1 256 77]"
    by (simp add: frame_events_def frame_event_def example_catalogue_def decode_octet_def)
  have c: "concat ?chunks = ?wire" "[] \<notin> set ?chunks" "?fs \<noteq> []"
    "sd example_connection \<noteq> None" "recv_buf example_connection = []"
    "recv_need example_connection = 8"
    by (simp_all add: example_connection_def)
  note inst = chunked_reads_dispatch_the_same [OF local_example_catalogue wf c(3) enc c(1,2,4,5,6), of mark_done]
  have one: "on_read example_catalogue mark_done example_connection (Recv ?wire) =
      Inr (example_connection
            \<lparr>channels := \<lparr>allocated = {0, 1},
                           inbound = [Inbound_method 1 42, Inbound_body 0 [9],
                                      Inbound_props 1 256 77]\<rparr>\<rparr>)"
    using inst [THEN conjunct2] unfolding ev by (simp add: example_connection_def)
  have "on_reads example_catalogue mark_done example_connection (map Recv ?chunks) =
      on_read example_catalogue mark_done example_connection (Recv ?wire)"
    using inst [THEN conjunct1] .
  with one show ?thesis by (simp only:)
qed

end
